theory Spec2Isabelle
  imports Main "HOL-Library.Word"
begin

section \<open>The sort kernel of sort\_kernel.cc\<close>

text \<open>
  A shallow embedding of \<^verbatim>\<open>SortArraysToIndicesKernel\<close> (sort\_kernel.cc): the kernel
  factory, the signature derivation and the build/load step of \<^verbatim>\<open>LoadJITFunction\<close>,
  the code generator's pieces (comparator, pre-sort partition, sort call), and the
  behaviour of the two generated sorters (\<^verbatim>\<open>TypedSorterImpl\<close>, indexed and in-place) with
  their result iterators.

  The generated C++ is text in the source. A generated piece is embedded as the
  structured code the generator emits (for the comparator with a renderer that gives the
  emitted text back) and as the function that code computes. The members
  \<^verbatim>\<open>nulls_first_\<close>, \<^verbatim>\<open>asc_\<close> and \<^verbatim>\<open>key_index_list_\<close> lose their final underscore.
\<close>

subsection \<open>Status values\<close>

text \<open>
  \<^verbatim>\<open>arrow::Status\<close> is modelled by a sum: \<open>Inr\<close> carries the result of an OK call,
  \<open>Inl\<close> the error. \<open>Terminated\<close> is the bare \<^verbatim>\<open>throw;\<close> of the constructors (no
  exception is active, so the process terminates); \<open>OutOfRange\<close> marks a read or write
  outside a vector or buffer, and \<open>Uninitialised\<close> a read of a buffer slot that was never
  stored to; the C++ leaves both undefined.
\<close>

datatype error =
    Invalid string | CompileError | LoadError | Terminated | OutOfRange | Uninitialised

subsection \<open>Decimal and hexadecimal output\<close>

text \<open>\<^verbatim>\<open>std::to_string\<close> and \<^verbatim>\<open>operator<<\<close> on a non-negative integer: decimal digits,
  no leading zero. \<^verbatim>\<open>std::hex\<close> output of a \<^verbatim>\<open>size_t\<close>: lower-case hexadecimal digits, no
  prefix, no leading zero.\<close>

fun to_string :: "nat \<Rightarrow> string" where
  "to_string n =
     (if n < 10 then [''0123456789'' ! n]
      else to_string (n div 10) @ [''0123456789'' ! (n mod 10)])"

declare to_string.simps [simp del]

fun to_hex :: "nat \<Rightarrow> string" where
  "to_hex n =
     (if n < 16 then [''0123456789abcdef'' ! n]
      else to_hex (n div 16) @ [''0123456789abcdef'' ! (n mod 16)])"

declare to_hex.simps [simp del]

subsection \<open>Fields and schemas\<close>

text \<open>
  \<^verbatim>\<open>arrow::Field\<close> and \<^verbatim>\<open>arrow::Schema\<close> are Arrow's. A field is a name, a type and a
  nullable flag; a schema is the ordered list of its fields. \<open>type_name\<close> is what
  the type's \<^verbatim>\<open>ToString()\<close> prints. \<^verbatim>\<open>Field::ToString\<close> prints the name, a colon and a
  blank, the type, and \<^verbatim>\<open> not null\<close> for a field that is not nullable;
  \<^verbatim>\<open>Schema::ToString\<close> prints the fields one per line.
\<close>

datatype arrow_type =
    UInt8Type | Int8Type | UInt16Type | Int16Type | UInt32Type | Int32Type
  | UInt64Type | Int64Type | FloatType | DoubleType | Date32Type | StringType

fun type_name :: "arrow_type \<Rightarrow> string" where
  "type_name UInt8Type = ''uint8''"
| "type_name Int8Type = ''int8''"
| "type_name UInt16Type = ''uint16''"
| "type_name Int16Type = ''int16''"
| "type_name UInt32Type = ''uint32''"
| "type_name Int32Type = ''int32''"
| "type_name UInt64Type = ''uint64''"
| "type_name Int64Type = ''int64''"
| "type_name FloatType = ''float''"
| "type_name DoubleType = ''double''"
| "type_name Date32Type = ''date32[day]''"
| "type_name StringType = ''string''"

record field =
  field_name :: string
  field_type :: arrow_type
  nullable :: bool

type_synonym schema = "field list"

definition Field_ToString :: "field \<Rightarrow> string" where
  "Field_ToString f =
     field_name f @ '': '' @ type_name (field_type f) @
     (if nullable f then [] else '' not null'')"

fun join_lines :: "string list \<Rightarrow> string" where
  "join_lines [] = []"
| "join_lines [s] = s"
| "join_lines (s # t # ss) = s @ [CHR 0x0A] @ join_lines (t # ss)"

definition Schema_ToString :: "schema \<Rightarrow> string" where
  "Schema_ToString sch = join_lines (map Field_ToString sch)"

text \<open>\<^verbatim>\<open>Schema::GetAllFieldIndices(name)\<close>: the positions of the fields of that name.\<close>

definition GetAllFieldIndices :: "schema \<Rightarrow> string \<Rightarrow> nat list" where
  "GetAllFieldIndices sch n = filter (\<lambda>i. field_name (sch ! i) = n) [0..<length sch]"

subsection \<open>The kernel factory\<close>

text \<open>
  \<^verbatim>\<open>Impl::Impl\<close> (lines 44-58) resolves every key field to its one position in the result
  schema and terminates the process when a key's name occurs there not exactly once.
  \<^verbatim>\<open>SortInplaceKernel::SortInplaceKernel\<close> (lines 539-551) runs the base constructor and
  repeats the look-up for the first key. \<^verbatim>\<open>SortArraysToIndicesKernel\<close>'s constructor
  (lines 869-886) chooses between the two.
\<close>

datatype variant = InPlace | Indexed

record impl =
  kind :: variant
  nulls_first :: bool
  asc :: bool
  key_index_list :: "nat list"

fun resolve_keys :: "schema \<Rightarrow> field list \<Rightarrow> error + nat list" where
  "resolve_keys sch [] = Inr []"
| "resolve_keys sch (f # fs) =
     (let indices = GetAllFieldIndices sch (field_name f) in
      if length indices \<noteq> 1 then Inl Terminated
      else (case resolve_keys sch fs of
              Inl e \<Rightarrow> Inl e
            | Inr rest \<Rightarrow> Inr (indices ! 0 # rest)))"

definition Impl_ctor :: "field list \<Rightarrow> schema \<Rightarrow> bool \<Rightarrow> bool \<Rightarrow> error + impl" where
  "Impl_ctor key_field_list result_schema nf a =
     (case resolve_keys result_schema key_field_list of
        Inl e \<Rightarrow> Inl e
      | Inr ks \<Rightarrow>
          Inr \<lparr>kind = Indexed, nulls_first = nf, asc = a, key_index_list = ks\<rparr>)"

definition SortInplaceKernel_ctor ::
  "field list \<Rightarrow> schema \<Rightarrow> bool \<Rightarrow> bool \<Rightarrow> error + impl" where
  "SortInplaceKernel_ctor key_field_list result_schema nf a =
     (case Impl_ctor key_field_list result_schema nf a of
        Inl e \<Rightarrow> Inl e
      | Inr k \<Rightarrow>
          (case key_field_list of
             [] \<Rightarrow> Inl OutOfRange
           | f # _ \<Rightarrow>
               if length (GetAllFieldIndices result_schema (field_name f)) \<noteq> 1
               then Inl Terminated
               else Inr (k\<lparr>kind := InPlace\<rparr>)))"

definition make_impl :: "field list \<Rightarrow> schema \<Rightarrow> bool \<Rightarrow> bool \<Rightarrow> error + impl" where
  "make_impl key_field_list result_schema nf a =
     (if length key_field_list = 1 \<and> length result_schema = 1
      then SortInplaceKernel_ctor key_field_list result_schema nf a
      else Impl_ctor key_field_list result_schema nf a)"

subsection \<open>The generated comparator\<close>

text \<open>
  \<^verbatim>\<open>GetCompFunction_\<close> (lines 360-384; \<open>GetCompFunction'\<close> here, since a constant's
  name cannot end in an underscore) builds the body of the lambda
  \<^verbatim>\<open>comp(ArrayItemIndex x, ArrayItemIndex y)\<close>. The emitted text has three shapes, which
  \<open>comp_code\<close> keeps apart; \<open>render_comp\<close> gives the text back. The recursion of the
  generator is on the key position, so it is a \<^theory_text>\<open>function\<close> with a measure. Reading
  \<^verbatim>\<open>sort_key_index_list[cur_key_index]\<close> past the end of the vector is undefined in the
  C++; the embedding returns \<open>None\<close> there.
\<close>

datatype comp_code =
    ReturnLess nat
  | ReturnGreater nat
  | IfEqual nat comp_code comp_code

definition view_text :: "nat \<Rightarrow> string \<Rightarrow> string" where
  "view_text k v =
     ''cached_'' @ to_string k @ ''_['' @ v @ ''.array_id]->GetView('' @ v @ ''.id)''"

fun render_comp :: "comp_code \<Rightarrow> string" where
  "render_comp (ReturnLess k) =
     ''return '' @ view_text k ''x'' @ '' < '' @ view_text k ''y'' @ '';'' @ [CHR 0x0A]"
| "render_comp (ReturnGreater k) =
     ''return '' @ view_text k ''x'' @ '' > '' @ view_text k ''y'' @ '';'' @ [CHR 0x0A]"
| "render_comp (IfEqual k inner comp_str) =
     ''if ('' @ view_text k ''x'' @ '' == '' @ view_text k ''y'' @ '') {'' @
     render_comp inner @ ''} else { '' @ render_comp comp_str @ ''}''"

function GetCompFunction' :: "bool \<Rightarrow> nat \<Rightarrow> nat list \<Rightarrow> comp_code option" where
  "GetCompFunction' a cur_key_index sort_key_index_list =
     (if cur_key_index < length sort_key_index_list then
        (if cur_key_index + 1 < length sort_key_index_list then
           (case GetCompFunction' a (cur_key_index + 1) sort_key_index_list of
              None \<Rightarrow> None
            | Some inner \<Rightarrow>
                Some (IfEqual (sort_key_index_list ! cur_key_index) inner
                        (if a then ReturnLess (sort_key_index_list ! cur_key_index)
                         else ReturnGreater (sort_key_index_list ! cur_key_index))))
         else
           Some (if a then ReturnLess (sort_key_index_list ! cur_key_index)
                 else ReturnGreater (sort_key_index_list ! cur_key_index)))
      else None)"
  by pat_completeness auto
termination
  by (relation "measure (\<lambda>(a, i, ks). length ks - i)") auto

declare GetCompFunction'.simps [simp del]

definition GetCompFunction :: "bool \<Rightarrow> nat list \<Rightarrow> comp_code option" where
  "GetCompFunction a sort_key_index_list = GetCompFunction' a 0 sort_key_index_list"

text \<open>
  What the emitted comparator computes. \<open>view k x\<close> stands for
  \<^verbatim>\<open>cached_k_[x.array_id]->GetView(x.id)\<close>, the value of column \<open>k\<close> in row \<open>x\<close>.
  The values of a column are taken from a linear order, as integers, dates and strings
  are (a floating-point NaN is left out).
\<close>

fun comp_sem :: "(nat \<Rightarrow> 'r \<Rightarrow> 'v::linorder) \<Rightarrow> comp_code \<Rightarrow> 'r \<Rightarrow> 'r \<Rightarrow> bool" where
  "comp_sem view (ReturnLess k) x y \<longleftrightarrow> view k x < view k y"
| "comp_sem view (ReturnGreater k) x y \<longleftrightarrow> view k x > view k y"
| "comp_sem view (IfEqual k inner comp_str) x y \<longleftrightarrow>
     (if view k x = view k y then comp_sem view inner x y else comp_sem view comp_str x y)"

text \<open>
  The composite comparator as the specification words it: compare the first key; on
  equality go on with the remaining keys; at the last key return the strict inequality of
  the configured direction.
\<close>

definition strict_in_direction :: "bool \<Rightarrow> 'v::linorder \<Rightarrow> 'v \<Rightarrow> bool" where
  "strict_in_direction a u v = (if a then u < v else u > v)"

fun composite_comparator ::
  "bool \<Rightarrow> (nat \<Rightarrow> 'r \<Rightarrow> 'v::linorder) \<Rightarrow> nat list \<Rightarrow> 'r \<Rightarrow> 'r \<Rightarrow> bool" where
  "composite_comparator a view [k] x y = strict_in_direction a (view k x) (view k y)"
| "composite_comparator a view (k # k' # ks) x y =
     (if view k x = view k y then composite_comparator a view (k' # ks) x y
      else strict_in_direction a (view k x) (view k y))"
| "composite_comparator a view [] x y = False"

subsection \<open>The generated sort call\<close>

text \<open>
  \<^verbatim>\<open>Impl::GetSortFunction\<close> (lines 407-442) and \<^verbatim>\<open>SortInplaceKernel::GetSortFunction\<close>
  (lines 779-797) emit one call: \<^verbatim>\<open>ska_sort\<close> (a radix sort) or \<^verbatim>\<open>std::sort\<close> with
  \<^verbatim>\<open>comp\<close>, over one of two ranges of the working array. The indexed kernel passes
  \<^verbatim>\<open>ska_sort\<close> a key extractor for column \<^verbatim>\<open>key_index_list[0]\<close>; the in-place kernel
  passes none.
\<close>

datatype sort_range =
    AfterNulls    \<comment> \<open>\<^verbatim>\<open>indices_begin + nulls_total_, indices_begin + items_total_\<close>\<close>
  | BeforeNulls   \<comment> \<open>\<^verbatim>\<open>indices_begin, indices_begin + items_total_ - nulls_total_\<close>\<close>

datatype sort_call =
    SkaSort sort_range "nat option"
  | StdSort sort_range

definition GetSortFunction :: "bool \<Rightarrow> bool \<Rightarrow> nat list \<Rightarrow> sort_call" where
  "GetSortFunction a nf keys =
     (if a then
        (if length keys = 1 then
           (if nf then SkaSort AfterNulls (Some (keys ! 0))
            else SkaSort BeforeNulls (Some (keys ! 0)))
         else
           (if nf then StdSort AfterNulls else StdSort BeforeNulls))
      else
        (if nf then StdSort AfterNulls else StdSort BeforeNulls))"

definition GetSortFunction_inplace :: "bool \<Rightarrow> bool \<Rightarrow> sort_call" where
  "GetSortFunction_inplace a nf =
     (if a then
        (if nf then SkaSort AfterNulls None else SkaSort BeforeNulls None)
      else
        (if nf then StdSort AfterNulls else StdSort BeforeNulls))"

fun is_radix :: "sort_call \<Rightarrow> bool" where
  "is_radix (SkaSort r k) = True"
| "is_radix (StdSort r) = False"

fun range_of :: "sort_call \<Rightarrow> sort_range" where
  "range_of (SkaSort r k) = r"
| "range_of (StdSort r) = r"

text \<open>The bounds of a range, as offsets from \<^verbatim>\<open>indices_begin\<close>.\<close>

fun range_bounds :: "sort_range \<Rightarrow> nat \<Rightarrow> nat \<Rightarrow> int \<times> int" where
  "range_bounds AfterNulls nulls items = (int nulls, int items)"
| "range_bounds BeforeNulls nulls items = (0, int items - int nulls)"

text \<open>
  \<^verbatim>\<open>std::sort\<close> and \<^verbatim>\<open>ska_sort\<close> are library routines; both order a range by a strict
  order and leave the relative order of equal elements open. The embedding runs an
  insertion sort in their place, which fixes one of the permitted results. A range that
  does not lie inside the array is undefined in the C++.
\<close>

fun insert_by :: "('a \<Rightarrow> 'a \<Rightarrow> bool) \<Rightarrow> 'a \<Rightarrow> 'a list \<Rightarrow> 'a list" where
  "insert_by lt x [] = [x]"
| "insert_by lt x (y # ys) =
     (if lt y x then y # insert_by lt x ys else x # y # ys)"

definition sort_by :: "('a \<Rightarrow> 'a \<Rightarrow> bool) \<Rightarrow> 'a list \<Rightarrow> 'a list" where
  "sort_by lt xs = foldr (insert_by lt) xs []"

definition sort_between ::
  "('a \<Rightarrow> 'a \<Rightarrow> bool) \<Rightarrow> int \<times> int \<Rightarrow> 'a list \<Rightarrow> error + 'a list" where
  "sort_between lt bounds xs =
     (case bounds of (lo, hi) \<Rightarrow>
        if 0 \<le> lo \<and> lo \<le> hi \<and> hi \<le> int (length xs)
        then Inr (take (nat lo) xs @
                  sort_by lt (take (nat (hi - lo)) (drop (nat lo) xs)) @
                  drop (nat hi) xs)
        else Inl OutOfRange)"

subsection \<open>Arrays and the accumulated state of the indexed sorter\<close>

text \<open>
  An Arrow array is a validity bitmap and a value buffer of the same length; a slot is
  the pair of its validity bit and its raw value (a null slot has a raw value too, which
  \<^verbatim>\<open>GetView\<close> returns). \<^verbatim>\<open>ArrayItemIndex\<close> names a row by batch and position; its field
  \<^verbatim>\<open>id\<close> is \<open>id'\<close> here. The fields are taken wide enough for every batch number and
  row number that occurs.
\<close>

type_synonym 'v arrow_array = "(bool \<times> 'v) list"

definition IsNull :: "'v arrow_array \<Rightarrow> nat \<Rightarrow> bool" where
  "IsNull arr i \<longleftrightarrow> \<not> fst (arr ! i)"

definition GetView :: "'v arrow_array \<Rightarrow> nat \<Rightarrow> 'v" where
  "GetView arr i = snd (arr ! i)"

definition null_count :: "'v arrow_array \<Rightarrow> nat" where
  "null_count arr = length (filter (\<lambda>slot. \<not> fst slot) arr)"

record ArrayItemIndex =
  array_id :: nat
  id' :: nat

text \<open>
  The members of the generated \<^verbatim>\<open>TypedSorterImpl\<close> (lines 280-287): \<open>cached s ! i\<close> is
  \<^verbatim>\<open>cached_i_\<close>, one vector of arrays per schema column.
\<close>

record 'v sorter =
  num_batches :: "64 word"
  items_total :: "64 word"
  nulls_total :: "64 word"
  first :: "'v arrow_array list"
  cached :: "'v arrow_array list list"

definition TypedSorterImpl :: "nat \<Rightarrow> 'v sorter" where
  "TypedSorterImpl shuffle_size =
     \<lparr>num_batches = 0, items_total = 0, nulls_total = 0, first = [],
      cached = replicate shuffle_size []\<rparr>"

text \<open>\<^verbatim>\<open>GetCachedInsert\<close> (lines 346-353): one \<^verbatim>\<open>push_back\<close> per schema column.\<close>

definition GetCachedInsert ::
  "nat \<Rightarrow> 'v arrow_array list list \<Rightarrow> 'v arrow_array list \<Rightarrow> 'v arrow_array list list" where
  "GetCachedInsert shuffle_size cs ins =
     map (\<lambda>i. (cs ! i) @ [ins ! i]) [0..<shuffle_size]"

text \<open>
  The generated \<^verbatim>\<open>Evaluate\<close> (lines 217-225). It reads \<^verbatim>\<open>in[0]\<close> and
  \<^verbatim>\<open>in[i]\<close> for every column \<open>i\<close>; a batch with fewer arrays is read out of range.
  Nothing else is checked.
\<close>

definition Evaluate :: "nat \<Rightarrow> 'v sorter \<Rightarrow> 'v arrow_array list \<Rightarrow> error + 'v sorter" where
  "Evaluate shuffle_size s ins =
     (if length ins < 1 \<or> length ins < shuffle_size then Inl OutOfRange
      else Inr (s\<lparr>num_batches := num_batches s + 1,
                  items_total := items_total s + of_nat (length (ins ! 0)),
                  nulls_total := nulls_total s + of_nat (null_count (ins ! 0)),
                  first := first s @ [ins ! 0],
                  cached := GetCachedInsert shuffle_size (cached s) ins\<rparr>))"

subsection \<open>The pre-sort partition of the indexed sorter\<close>

text \<open>
  \<^verbatim>\<open>GetPreSortValid\<close> and \<^verbatim>\<open>GetPreSortNull\<close> (lines 385-406) emit the two stores of the
  partition loop (lines 246-260); here they give the offset from \<^verbatim>\<open>indices_begin\<close> the
  store goes to. The buffer is freshly allocated: a slot is \<open>None\<close> until it is stored
  to. A store outside the buffer is undefined in the C++.
\<close>

definition GetPreSortValid :: "bool \<Rightarrow> nat \<Rightarrow> nat \<Rightarrow> int" where
  "GetPreSortValid nf nulls indices_i =
     (if nf then int nulls + int indices_i else int indices_i)"

definition GetPreSortNull :: "bool \<Rightarrow> nat \<Rightarrow> nat \<Rightarrow> nat \<Rightarrow> int" where
  "GetPreSortNull nf items nulls indices_null =
     (if nf then int indices_null else int items - int nulls + int indices_null)"

record presort =
  indices_buf :: "ArrayItemIndex option list"
  indices_i :: nat
  indices_null :: nat

definition store :: "presort \<Rightarrow> int \<Rightarrow> ArrayItemIndex \<Rightarrow> error + ArrayItemIndex option list" where
  "store p pos item =
     (if 0 \<le> pos \<and> pos < int (length (indices_buf p))
      then Inr ((indices_buf p)[nat pos := Some item])
      else Inl OutOfRange)"

primrec for_each :: "('a \<Rightarrow> 's \<Rightarrow> error + 's) \<Rightarrow> 'a list \<Rightarrow> 's \<Rightarrow> error + 's" where
  "for_each body [] s = Inr s"
| "for_each body (x # xs) s =
     (case body x s of Inl e \<Rightarrow> Inl e | Inr s' \<Rightarrow> for_each body xs s')"

definition partition_row ::
  "bool \<Rightarrow> nat \<Rightarrow> nat \<Rightarrow> 'v arrow_array \<Rightarrow> nat \<Rightarrow> nat \<Rightarrow> presort \<Rightarrow> error + presort" where
  "partition_row nf items nulls arr a i p =
     (if \<not> IsNull arr i then
        (case store p (GetPreSortValid nf nulls (indices_i p)) \<lparr>array_id = a, id' = i\<rparr> of
           Inl e \<Rightarrow> Inl e
         | Inr b \<Rightarrow> Inr (p\<lparr>indices_buf := b, indices_i := indices_i p + 1\<rparr>))
      else
        (case store p (GetPreSortNull nf items nulls (indices_null p)) \<lparr>array_id = a, id' = i\<rparr> of
           Inl e \<Rightarrow> Inl e
         | Inr b \<Rightarrow> Inr (p\<lparr>indices_buf := b, indices_null := indices_null p + 1\<rparr>)))"

definition partition_batch ::
  "bool \<Rightarrow> nat \<Rightarrow> nat \<Rightarrow> 'v arrow_array list \<Rightarrow> nat \<Rightarrow> presort \<Rightarrow> error + presort" where
  "partition_batch nf items nulls fs a p =
     (if a < length fs
      then for_each (partition_row nf items nulls (fs ! a) a) [0..<length (fs ! a)] p
      else Inl OutOfRange)"

definition partition_all :: "bool \<Rightarrow> 'v sorter \<Rightarrow> error + presort" where
  "partition_all nf s =
     for_each (partition_batch nf (unat (items_total s)) (unat (nulls_total s)) (first s))
       [0..<unat (num_batches s)]
       \<lparr>indices_buf = replicate (unat (items_total s)) None, indices_i = 0, indices_null = 0\<rparr>"

subsection \<open>The generated code of the indexed sorter\<close>

text \<open>
  \<^verbatim>\<open>Impl::ProduceCodes\<close> (lines 171-345) splices the generated pieces into the text of
  \<^verbatim>\<open>TypedSorterImpl\<close>. The record keeps the pieces that vary: the number of columns
  (which unrolls the per-column statements), the comparator, the direction of the two
  pre-sort stores, the sort call, and the batch size, which \<^verbatim>\<open>GetBatchSize()\<close> supplies
  and lines 310-312 print into \<^verbatim>\<open>Next\<close> as a decimal literal. \<^verbatim>\<open>GetBatchSize\<close> is declared
  in codegen\_common.h; its value is a parameter here.
\<close>

record generated =
  shuffle_size :: nat
  comp_func :: "comp_code option"
  pre_sort_nulls_first :: bool
  sort_func :: sort_call
  batch_size_literal :: string

definition ProduceCodes :: "nat \<Rightarrow> impl \<Rightarrow> schema \<Rightarrow> generated" where
  "ProduceCodes batch k result_schema =
     \<lparr>shuffle_size = length result_schema,
      comp_func = GetCompFunction (asc k) (key_index_list k),
      pre_sort_nulls_first = nulls_first k,
      sort_func = GetSortFunction (asc k) (nulls_first k) (key_index_list k),
      batch_size_literal = to_string batch\<rparr>"

subsection \<open>Finish and the result iterator of the indexed sorter\<close>

text \<open>
  \<open>readable cs k x\<close>: row \<open>x\<close> exists in column \<open>k\<close>, so that
  \<^verbatim>\<open>cached_k_[x.array_id]->GetView(x.id)\<close> reads inside the column's arrays.
\<close>

definition readable :: "'v arrow_array list list \<Rightarrow> nat \<Rightarrow> ArrayItemIndex \<Rightarrow> bool" where
  "readable cs k x \<longleftrightarrow>
     k < length cs \<and> array_id x < length (cs ! k) \<and> id' x < length (cs ! k ! array_id x)"

definition item_view :: "'v arrow_array list list \<Rightarrow> nat \<Rightarrow> ArrayItemIndex \<Rightarrow> 'v" where
  "item_view cs k x = GetView (cs ! k ! array_id x) (id' x)"

fun comp_keys :: "comp_code \<Rightarrow> nat list" where
  "comp_keys (ReturnLess k) = [k]"
| "comp_keys (ReturnGreater k) = [k]"
| "comp_keys (IfEqual k inner comp_str) = k # comp_keys inner"

text \<open>
  The sort call at work on the partitioned buffer. The rows of the range are compared
  through the key columns, so every one of them has to be readable there.
\<close>

definition run_sort ::
  "generated \<Rightarrow> 'v::linorder sorter \<Rightarrow> ArrayItemIndex list \<Rightarrow> error + ArrayItemIndex list" where
  "run_sort g s items =
     (let bounds = range_bounds (range_of (sort_func g))
                     (unat (nulls_total s)) (unat (items_total s));
          range_rows = take (nat (snd bounds - fst bounds)) (drop (nat (fst bounds)) items)
      in case sort_func g of
           SkaSort r None \<Rightarrow> Inl OutOfRange
         | SkaSort r (Some k) \<Rightarrow>
             if list_all (readable (cached s) k) range_rows
             then sort_between (\<lambda>x y. item_view (cached s) k x < item_view (cached s) k y)
                    bounds items
             else Inl OutOfRange
         | StdSort r \<Rightarrow>
             (case comp_func g of
                None \<Rightarrow> Inl OutOfRange
              | Some c \<Rightarrow>
                  if list_all (\<lambda>x. list_all (\<lambda>k. readable (cached s) k x) (comp_keys c))
                       range_rows
                  then sort_between (comp_sem (item_view (cached s)) c) bounds items
                  else Inl OutOfRange))"

text \<open>
  The generated \<^verbatim>\<open>Finish\<close> (lines 227-268): allocate, partition, sort. The result
  is the array of \<^verbatim>\<open>items_total_\<close> row indices.
\<close>

definition Finish :: "generated \<Rightarrow> 'v::linorder sorter \<Rightarrow> error + ArrayItemIndex list" where
  "Finish g s =
     (case partition_all (pre_sort_nulls_first g) s of
        Inl e \<Rightarrow> Inl e
      | Inr p \<Rightarrow>
          (case those (indices_buf p) of
             None \<Rightarrow> Inl Uninitialised
           | Some items \<Rightarrow> run_sort g s items))"

record 'v result_iterator =
  offset :: "64 word"
  total_length :: "64 word"
  indices_begin :: "ArrayItemIndex list"
  it_cached :: "'v arrow_array list list"

record 'v record_batch =
  num_rows :: "64 word"
  columns :: "'v option list list"

definition MakeResultIterator ::
  "generated \<Rightarrow> 'v::linorder sorter \<Rightarrow> error + 'v result_iterator" where
  "MakeResultIterator g s =
     (case Finish g s of
        Inl e \<Rightarrow> Inl e
      | Inr indices_out \<Rightarrow>
          Inr \<lparr>offset = 0, total_length = items_total s,
               indices_begin = indices_out, it_cached = cached s\<rparr>)"

definition HasNext :: "'v result_iterator \<Rightarrow> bool" where
  "HasNext it = (if offset it \<ge> total_length it then False else True)"

text \<open>
  \<^verbatim>\<open>GetTypedBuild\<close> (lines 494-505): one append per column, a null for a null slot. A
  builder is the list of the cells appended since its last reset.
\<close>

definition GetTypedBuild ::
  "'v arrow_array list list \<Rightarrow> ArrayItemIndex \<Rightarrow> 'v option list list \<Rightarrow>
   error + 'v option list list" where
  "GetTypedBuild cs item builders =
     (if list_all (\<lambda>i. readable cs i item) [0..<length cs] then
        Inr (map (\<lambda>i. (builders ! i) @
                        [if \<not> IsNull (cs ! i ! array_id item) (id' item)
                         then Some (GetView (cs ! i ! array_id item) (id' item))
                         else None])
               [0..<length cs])
      else Inl OutOfRange)"

lemma unat_succ: "count < (len :: 64 word) \<Longrightarrow> unat (count + 1) = Suc (unat count)"
proof -
  assume "count < len"
  then have a: "unat count < unat len" by (simp add: word_less_nat_alt)
  have b: "unat len < 2 ^ 64" using unsigned_less [of len] by simp
  from a b have "unat count + 1 < 2 ^ 64" by linarith
  then show ?thesis by (simp add: unat_word_ariths)
qed

lemma count_step:
  "count < (len :: 64 word) \<Longrightarrow> unat len - unat (count + 1) < unat len - unat count"
  by (simp add: unat_succ word_less_nat_alt diff_less_mono2)

function Next_loop ::
  "'v result_iterator \<Rightarrow> 64 word \<Rightarrow> 64 word \<Rightarrow> 'v option list list \<Rightarrow>
   error + 'v option list list" where
  "Next_loop it len count builders =
     (if count < len then
        (if unat (offset it + count) < length (indices_begin it) then
           (case GetTypedBuild (it_cached it)
                   (indices_begin it ! unat (offset it + count)) builders of
              Inl e \<Rightarrow> Inl e
            | Inr builders' \<Rightarrow> Next_loop it len (count + 1) builders')
         else Inl OutOfRange)
      else Inr builders)"
  by pat_completeness auto
termination
  by (relation "measure (\<lambda>(it, len, count, builders). unat len - unat count)")
     (auto simp: count_step)

declare Next_loop.simps [simp del]

text \<open>The generated \<^verbatim>\<open>Next\<close> (lines 309-325), for the batch size printed into it.\<close>

definition Next ::
  "64 word \<Rightarrow> 'v result_iterator \<Rightarrow> error + ('v record_batch \<times> 'v result_iterator)" where
  "Next batch_size it =
     (let len = (if total_length it - offset it > batch_size then batch_size
                 else total_length it - offset it)
      in case Next_loop it len 0 (replicate (length (it_cached it)) []) of
           Inl e \<Rightarrow> Inl e
         | Inr builders \<Rightarrow>
             Inr (\<lparr>num_rows = len, columns = builders\<rparr>, it\<lparr>offset := offset it + len\<rparr>))"

subsection \<open>The in-place sorter\<close>

text \<open>
  \<^verbatim>\<open>SortInplaceKernel::ProduceCodes\<close> (lines 619-757) generates a sorter for one column
  of a C numeric type; the values are integers here. Its pieces: the C type of column 0
  (\<^verbatim>\<open>typed_codegen_list[0]\<close>, which an empty schema does not have), the direction of
  \<^verbatim>\<open>comp\<close> (\<^verbatim>\<open>GetCompFunction\<close>, lines 758-769), the predicate of the partition
  (\<^verbatim>\<open>GetPartitionFunction\<close>, lines 770-778), the sort call and the batch size literal.
\<close>

record generated_inplace =
  ctype :: "arrow_type option"
  comp_greater :: bool
  partition_nulls_first :: bool
  ip_sort_func :: sort_call
  ip_batch_size_literal :: string

definition ProduceCodes_inplace :: "nat \<Rightarrow> impl \<Rightarrow> schema \<Rightarrow> generated_inplace" where
  "ProduceCodes_inplace batch k result_schema =
     \<lparr>ctype = (case result_schema of [] \<Rightarrow> None | f # _ \<Rightarrow> Some (field_type f)),
      comp_greater = (\<not> asc k),
      partition_nulls_first = nulls_first k,
      ip_sort_func = GetSortFunction_inplace (asc k) (nulls_first k),
      ip_batch_size_literal = to_string batch\<rparr>"

record inplace_sorter =
  ip_num_batches :: "64 word"
  ip_items_total :: "64 word"
  ip_nulls_total :: "64 word"
  cached_0 :: "int arrow_array list"

definition TypedSorterImpl_inplace :: inplace_sorter where
  "TypedSorterImpl_inplace =
     \<lparr>ip_num_batches = 0, ip_items_total = 0, ip_nulls_total = 0, cached_0 = []\<rparr>"

text \<open>The generated \<^verbatim>\<open>Evaluate\<close> (lines 654-660).\<close>

definition Evaluate_inplace ::
  "inplace_sorter \<Rightarrow> int arrow_array list \<Rightarrow> error + inplace_sorter" where
  "Evaluate_inplace s ins =
     (if length ins < 1 then Inl OutOfRange
      else Inr (s\<lparr>ip_num_batches := ip_num_batches s + 1,
                  ip_items_total := ip_items_total s + of_nat (length (ins ! 0)),
                  ip_nulls_total := ip_nulls_total s + of_nat (null_count (ins ! 0)),
                  cached_0 := cached_0 s @ [ins ! 0]\<rparr>))"

text \<open>
  \<^verbatim>\<open>arrow::Concatenate\<close> is Arrow's (array/concatenate.cc). It joins the arrays in
  order, and it rejects an empty vector: its first statement returns
  \<^verbatim>\<open>Status::Invalid("Must pass at least one array")\<close> when \<^verbatim>\<open>arrays.size() == 0\<close>.
\<close>

definition arrow_Concatenate :: "'v arrow_array list \<Rightarrow> error + 'v arrow_array" where
  "arrow_Concatenate arrays =
     (if length arrays = 0 then Inl (Invalid ''Must pass at least one array'')
      else Inr (concat arrays))"

text \<open>
  \<^verbatim>\<open>std::stable_partition\<close> moves the elements that satisfy the predicate to the front
  and keeps the order inside both groups. The emitted predicate (lines 772-776) is
  applied to the elements of the value buffer and passes each to
  \<^verbatim>\<open>concatenated_array_->IsNull\<close> as a position; a value that is no position of the array
  reads outside the bitmap.
\<close>

definition stable_partition :: "('a \<Rightarrow> bool) \<Rightarrow> 'a list \<Rightarrow> 'a list" where
  "stable_partition pred xs = filter pred xs @ filter (\<lambda>x. \<not> pred x) xs"

definition GetPartitionFunction :: "bool \<Rightarrow> int arrow_array \<Rightarrow> int list \<Rightarrow> error + int list" where
  "GetPartitionFunction nf concatenated_array vals =
     (if list_all (\<lambda>ind. 0 \<le> ind \<and> ind < int (length concatenated_array)) vals then
        Inr (if nf
             then stable_partition (\<lambda>ind. IsNull concatenated_array (nat ind)) vals
             else stable_partition (\<lambda>ind. \<not> IsNull concatenated_array (nat ind)) vals)
      else Inl OutOfRange)"

definition run_sort_inplace :: "generated_inplace \<Rightarrow> inplace_sorter \<Rightarrow> int list \<Rightarrow> error + int list" where
  "run_sort_inplace g s vals =
     (let bounds = range_bounds (range_of (ip_sort_func g))
                     (unat (ip_nulls_total s)) (unat (ip_items_total s))
      in case ip_sort_func g of
           SkaSort r k \<Rightarrow> sort_between (\<lambda>x y. x < y) bounds vals
         | StdSort r \<Rightarrow>
             sort_between (if comp_greater g then (\<lambda>x y. x > y) else (\<lambda>x y. x < y)) bounds vals)"

record inplace_iterator =
  ip_offset :: "64 word"
  ip_total_length :: "64 word"
  ip_nulls :: "64 word"
  ip_indices_begin :: "int list"

text \<open>The generated \<^verbatim>\<open>MakeResultIterator\<close> (lines 662-682).\<close>

definition MakeResultIterator_inplace ::
  "generated_inplace \<Rightarrow> inplace_sorter \<Rightarrow> error + inplace_iterator" where
  "MakeResultIterator_inplace g s =
     (case arrow_Concatenate (cached_0 s) of
        Inl e \<Rightarrow> Inl e
      | Inr concatenated_array \<Rightarrow>
          (case (if ip_nulls_total s > 0
                 then GetPartitionFunction (partition_nulls_first g) concatenated_array
                        (map snd concatenated_array)
                 else Inr (map snd concatenated_array)) of
             Inl e \<Rightarrow> Inl e
           | Inr partitioned \<Rightarrow>
               (case run_sort_inplace g s partitioned of
                  Inl e \<Rightarrow> Inl e
                | Inr sorted_vals \<Rightarrow>
                    Inr \<lparr>ip_offset = 0, ip_total_length = ip_items_total s,
                         ip_nulls = ip_nulls_total s, ip_indices_begin = sorted_vals\<rparr>)))"

definition HasNext_inplace :: "inplace_iterator \<Rightarrow> bool" where
  "HasNext_inplace it = (if ip_offset it \<ge> ip_total_length it then False else True)"

text \<open>
  The two loops of the generated \<^verbatim>\<open>Next\<close> (lines 711-735). The first (lines 717-719)
  advances \<^verbatim>\<open>count\<close> with every append. The second (lines 721-727) advances it only in
  the branch that appends a value, so it is not known to end: it is a partial function,
  and \<open>None\<close> is the run that never leaves the loop.
\<close>

function append_loop ::
  "inplace_iterator \<Rightarrow> 64 word \<Rightarrow> 64 word \<Rightarrow> int option list \<Rightarrow> error + int option list" where
  "append_loop it len count builder =
     (if count < len then
        (if unat (ip_offset it + count) < length (ip_indices_begin it) then
           append_loop it len (count + 1)
             (builder @ [Some (ip_indices_begin it ! unat (ip_offset it + count))])
         else Inl OutOfRange)
      else Inr builder)"
  by pat_completeness auto
termination
  by (relation "measure (\<lambda>(it, len, count, builder). unat len - unat count)")
     (auto simp: count_step)

declare append_loop.simps [simp del]

partial_function (option) null_loop ::
  "inplace_iterator \<Rightarrow> 64 word \<Rightarrow> 64 word \<Rightarrow> int option list \<Rightarrow>
   (error + int option list) option" where
  "null_loop it len count builder =
     (if count < len then
        (if ip_offset it + count < ip_nulls it then
           null_loop it len count (builder @ [None])
         else if unat (ip_offset it + count) < length (ip_indices_begin it) then
           null_loop it len (count + 1)
             (builder @ [Some (ip_indices_begin it ! unat (ip_offset it + count))])
         else Some (Inl OutOfRange))
      else Some (Inr builder))"

definition Next_inplace ::
  "64 word \<Rightarrow> inplace_iterator \<Rightarrow> (error + (int record_batch \<times> inplace_iterator)) option" where
  "Next_inplace batch_size it =
     (let len = (if ip_total_length it - ip_offset it > batch_size then batch_size
                 else ip_total_length it - ip_offset it)
      in case (if ip_offset it \<ge> ip_nulls it then Some (append_loop it len 0 [])
               else null_loop it len 0 []) of
           None \<Rightarrow> None
         | Some (Inl e) \<Rightarrow> Some (Inl e)
         | Some (Inr builder) \<Rightarrow>
             Some (Inr (\<lparr>num_rows = len, columns = [builder]\<rparr>,
                        it\<lparr>ip_offset := ip_offset it + len\<rparr>)))"

subsection \<open>The signature and the build/load step\<close>

text \<open>
  \<^verbatim>\<open>LoadJITFunction\<close> (lines 59-92). The descriptor \<^verbatim>\<open>func_args_ss\<close> is written by lines
  63-71; the counter \<^verbatim>\<open>i\<close> of the key loop is declared and printed, and not incremented,
  so \<open>sort_keys\<close> carries it unchanged. The signature is the hexadecimal print of
  \<^verbatim>\<open>std::hash<std::string>\<close> of the descriptor; the hash is the C++ library's and is a
  parameter here, a function from strings to \<^verbatim>\<open>size_t\<close>.
\<close>

fun sort_keys :: "nat \<Rightarrow> field list \<Rightarrow> string" where
  "sort_keys i [] = []"
| "sort_keys i (f # fs) =
     ''[sort_key_'' @ to_string i @ '']'' @ Field_ToString f @ sort_keys i fs"

definition func_args_ss :: "bool \<Rightarrow> bool \<Rightarrow> field list \<Rightarrow> schema \<Rightarrow> string" where
  "func_args_ss nf a key_field_list result_schema =
     ''[Sorter]'' @ (if nf then ''nulls_first'' else ''nulls_last'') @ ''|'' @
     (if a then ''asc'' else ''desc'') @
     sort_keys 0 key_field_list @
     ''[schema]'' @ Schema_ToString result_schema"

definition signature_of ::
  "bool \<Rightarrow> bool \<Rightarrow> field list \<Rightarrow> schema \<Rightarrow> (string \<Rightarrow> 64 word) \<Rightarrow> string" where
  "signature_of nf a key_field_list result_schema hash =
     to_hex (unat (hash (func_args_ss nf a key_field_list result_schema)))"

text \<open>
  The generated source of either kernel; \<open>produce\<close> is the virtual call
  \<^verbatim>\<open>ProduceCodes(result_schema)\<close> of line 85.
\<close>

datatype codes = IndexedCodes generated | InplaceCodes generated_inplace

definition produce :: "nat \<Rightarrow> impl \<Rightarrow> schema \<Rightarrow> codes" where
  "produce batch k result_schema =
     (case kind k of
        Indexed \<Rightarrow> IndexedCodes (ProduceCodes batch k result_schema)
      | InPlace \<Rightarrow> InplaceCodes (ProduceCodes_inplace batch k result_schema))"

text \<open>
  The process around a build: the lock file, the store of compiled libraries by
  signature, the compiler, the configured batch size and the hash.
\<close>

record jit_env =
  lock_held :: bool
  libraries :: "string \<rightharpoonup> codes"
  loadable :: "string \<Rightarrow> bool"
  compiler_accepts :: "codes \<Rightarrow> bool"
  compilations :: nat
  GetBatchSize :: nat
  std_hash :: "string \<Rightarrow> 64 word"

text \<open>
  Modelled from the spec: \<^verbatim>\<open>FileSpinLock\<close> and \<^verbatim>\<open>FileSpinUnLock\<close> are declared in
  codegen\_common.h and are not among the source files. The specification (4.2) has a
  process-wide advisory lock scoped to kernel build and load, acquired first and released
  last. Acquiring spins until the lock is free, so acquiring a held lock does not return
  (\<open>None\<close>).
\<close>

definition FileSpinLock :: "jit_env \<Rightarrow> jit_env option" where
  "FileSpinLock env = (if lock_held env then None else Some (env\<lparr>lock_held := True\<rparr>))"

definition FileSpinUnLock :: "jit_env \<Rightarrow> jit_env" where
  "FileSpinUnLock env = env\<lparr>lock_held := False\<rparr>"

text \<open>
  Modelled from the spec: \<^verbatim>\<open>LoadLibrary\<close> and \<^verbatim>\<open>CompileCodes\<close> are declared in
  codegen\_common.h and are not among the source files. The specification (4.2) has a load
  of the artifact named by the signature, which fails when none was built (or the one
  found does not load), and a compiler run that produces and persists the artifact
  under that name or fails.
\<close>

definition LoadLibrary :: "jit_env \<Rightarrow> string \<Rightarrow> error + codes" where
  "LoadLibrary env signature =
     (case libraries env signature of
        None \<Rightarrow> Inl LoadError
      | Some lib \<Rightarrow> if loadable env signature then Inr lib else Inl LoadError)"

definition CompileCodes :: "jit_env \<Rightarrow> codes \<Rightarrow> string \<Rightarrow> (error + unit) \<times> jit_env" where
  "CompileCodes env cs signature =
     (if compiler_accepts env cs
      then (Inr (), env\<lparr>libraries := (libraries env)(signature \<mapsto> cs),
                         compilations := compilations env + 1\<rparr>)
      else (Inl CompileError, env\<lparr>compilations := compilations env + 1\<rparr>))"

definition LoadJITFunction_signature :: "jit_env \<Rightarrow> impl \<Rightarrow> field list \<Rightarrow> schema \<Rightarrow> string" where
  "LoadJITFunction_signature env k key_field_list result_schema =
     signature_of (nulls_first k) (asc k) key_field_list result_schema (std_hash env)"

text \<open>
  Lines 81-91. Each \<^verbatim>\<open>RETURN_NOT_OK\<close> returns the failed status from where it stands;
  \<^verbatim>\<open>FileSpinUnLock\<close> is the statement after the \<^verbatim>\<open>if\<close>. The result is the status with
  the loaded sorter, and the process as the call leaves it.
\<close>

definition LoadJITFunction ::
  "jit_env \<Rightarrow> impl \<Rightarrow> field list \<Rightarrow> schema \<Rightarrow> ((error + codes) \<times> jit_env) option" where
  "LoadJITFunction env k key_field_list result_schema =
     (let signature = LoadJITFunction_signature env k key_field_list result_schema in
      case FileSpinLock env of
        None \<Rightarrow> None
      | Some env1 \<Rightarrow>
          (case LoadLibrary env1 signature of
             Inr lib \<Rightarrow> Some (Inr lib, FileSpinUnLock env1)
           | Inl _ \<Rightarrow>
               (case CompileCodes env1 (produce (GetBatchSize env1) k result_schema) signature of
                  (Inl e, env2) \<Rightarrow> Some (Inl e, env2)
                | (Inr _, env2) \<Rightarrow>
                    (case LoadLibrary env2 signature of
                       Inl e \<Rightarrow> Some (Inl e, env2)
                     | Inr lib \<Rightarrow> Some (Inr lib, FileSpinUnLock env2)))))"

text \<open>
  The constructor of \<^verbatim>\<open>SortArraysToIndicesKernel\<close> as a whole (lines 869-886): choose
  the implementation, build or load its sorter, terminate when that fails.
\<close>

definition SortArraysToIndicesKernel_ctor ::
  "jit_env \<Rightarrow> field list \<Rightarrow> schema \<Rightarrow> bool \<Rightarrow> bool \<Rightarrow>
   ((error + impl \<times> codes) \<times> jit_env) option" where
  "SortArraysToIndicesKernel_ctor env key_field_list result_schema nf a =
     (case make_impl key_field_list result_schema nf a of
        Inl e \<Rightarrow> Some (Inl e, env)
      | Inr k \<Rightarrow>
          (case LoadJITFunction env k key_field_list result_schema of
             None \<Rightarrow> None
           | Some (Inl e, env') \<Rightarrow> Some (Inl Terminated, env')
           | Some (Inr lib, env') \<Rightarrow> Some (Inr (k, lib), env')))"

subsection \<open>Notions for stating what the indexed sorter does\<close>

text \<open>
  The rows of the accumulated batches in encounter order (batch by batch, row by row),
  and the null-ness of a row in a list of arrays; for \<^verbatim>\<open>first_\<close> this is the test of
  the partition loop.
\<close>

definition batch_rows :: "nat \<Rightarrow> 'v arrow_array \<Rightarrow> ArrayItemIndex list" where
  "batch_rows a arr = map (\<lambda>i. \<lparr>array_id = a, id' = i\<rparr>) [0..<length arr]"

definition rows_of :: "'v arrow_array list \<Rightarrow> nat list \<Rightarrow> ArrayItemIndex list" where
  "rows_of fs as = concat (map (\<lambda>a. batch_rows a (fs ! a)) as)"

definition all_rows :: "'v arrow_array list \<Rightarrow> ArrayItemIndex list" where
  "all_rows fs = rows_of fs [0..<length fs]"

definition null_in :: "'v arrow_array list \<Rightarrow> ArrayItemIndex \<Rightarrow> bool" where
  "null_in fs x \<longleftrightarrow> IsNull (fs ! array_id x) (id' x)"

text \<open>
  A sorter is consistent when its counters agree with the arrays it keeps in
  \<^verbatim>\<open>first_\<close> (no counter has wrapped around), and aligned when every column holds, batch
  for batch, arrays as long as those of \<^verbatim>\<open>first_\<close>.
\<close>

definition consistent :: "'v sorter \<Rightarrow> bool" where
  "consistent s \<longleftrightarrow>
     unat (num_batches s) = length (first s) \<and>
     unat (items_total s) = length (all_rows (first s)) \<and>
     unat (nulls_total s) = length (filter (null_in (first s)) (all_rows (first s)))"

definition aligned :: "'v sorter \<Rightarrow> bool" where
  "aligned s \<longleftrightarrow> list_all (\<lambda>col. map length col = map length (first s)) (cached s)"

text \<open>
  The state of the partition loop after some rows: the non-null rows \<open>vs\<close> and the null
  rows \<open>ns\<close> met so far stand in their regions of the buffer, in encounter order.
\<close>

definition placed ::
  "bool \<Rightarrow> nat \<Rightarrow> nat \<Rightarrow> presort \<Rightarrow> ArrayItemIndex list \<Rightarrow> ArrayItemIndex list \<Rightarrow> bool" where
  "placed nf T N p vs ns \<longleftrightarrow>
     length (indices_buf p) = T \<and> indices_i p = length vs \<and> indices_null p = length ns \<and>
     (\<forall>j < length vs. indices_buf p ! ((if nf then N else 0) + j) = Some (vs ! j)) \<and>
     (\<forall>j < length ns. indices_buf p ! ((if nf then 0 else T - N) + j) = Some (ns ! j))"

text \<open>The first and the past-the-end position of the range the sort call is given.\<close>

definition sort_from :: "bool \<Rightarrow> nat \<Rightarrow> nat \<Rightarrow> nat" where
  "sort_from nf items nulls = (if nf then nulls else 0)"

definition sort_to :: "bool \<Rightarrow> nat \<Rightarrow> nat \<Rightarrow> nat" where
  "sort_to nf items nulls = (if nf then items else items - nulls)"

text \<open>
  An iterator is well formed when its cursor has not passed the total, the index array
  holds the total number of rows, and every row it names exists in every column.
  \<open>batch_length\<close> is the value \<^verbatim>\<open>Next\<close> gives its local \<^verbatim>\<open>length\<close>; \<open>Next_calls n\<close>
  is \<open>n\<close> calls of \<^verbatim>\<open>Next\<close> in a row, collecting the batches.
\<close>

definition well_formed :: "'v result_iterator \<Rightarrow> bool" where
  "well_formed it \<longleftrightarrow>
     offset it \<le> total_length it \<and>
     unat (total_length it) \<le> length (indices_begin it) \<and>
     list_all (\<lambda>x. list_all (\<lambda>i. readable (it_cached it) i x) [0..<length (it_cached it)])
       (indices_begin it)"

definition batch_length :: "64 word \<Rightarrow> 'v result_iterator \<Rightarrow> 64 word" where
  "batch_length batch_size it =
     (if total_length it - offset it > batch_size then batch_size
      else total_length it - offset it)"

primrec Next_calls ::
  "nat \<Rightarrow> 64 word \<Rightarrow> 'v result_iterator \<Rightarrow>
   error + ('v record_batch list \<times> 'v result_iterator)" where
  "Next_calls 0 batch_size it = Inr ([], it)"
| "Next_calls (Suc n) batch_size it =
     (case Next batch_size it of
        Inl e \<Rightarrow> Inl e
      | Inr (b, it') \<Rightarrow>
          (case Next_calls n batch_size it' of
             Inl e \<Rightarrow> Inl e
           | Inr (bs, it'') \<Rightarrow> Inr (b # bs, it'')))"

text \<open>The same for the in-place iterator and its value buffer.\<close>

definition well_formed_inplace :: "inplace_iterator \<Rightarrow> bool" where
  "well_formed_inplace it \<longleftrightarrow>
     ip_offset it \<le> ip_total_length it \<and>
     unat (ip_total_length it) \<le> length (ip_indices_begin it)"

subsection \<open>One text inside another\<close>

text \<open>
  \<open>occurs_in t s\<close>: the text \<open>t\<close> stands somewhere in \<open>s\<close>, as a run of
  neighbouring characters.
\<close>

fun starts_with :: "'a list \<Rightarrow> 'a list \<Rightarrow> bool" where
  "starts_with [] s = True"
| "starts_with (c # cs) [] = False"
| "starts_with (c # cs) (d # ds) = (c = d \<and> starts_with cs ds)"

fun occurs_in :: "'a list \<Rightarrow> 'a list \<Rightarrow> bool" where
  "occurs_in t [] = starts_with t []"
| "occurs_in t (c # cs) = (starts_with t (c # cs) \<or> occurs_in t cs)"

subsection \<open>The specification's rule for the sort algorithm\<close>

text \<open>
  The specification (4.3, algorithm selection) words the condition for the radix sort as:
  a single ascending numeric primary key with no additional keys. \<open>spec_uses_radix\<close>
  is that condition, read on the type of the key's column.
\<close>

fun numeric :: "arrow_type \<Rightarrow> bool" where
  "numeric StringType = False"
| "numeric t = True"

definition spec_uses_radix :: "bool \<Rightarrow> nat list \<Rightarrow> schema \<Rightarrow> bool" where
  "spec_uses_radix a keys result_schema \<longleftrightarrow>
     a \<and> length keys = 1 \<and> numeric (field_type (result_schema ! (keys ! 0)))"

subsection \<open>Example inputs\<close>

definition fa :: field where
  "fa = \<lparr>field_name = ''a'', field_type = Int32Type, nullable = True\<rparr>"

definition fb :: field where
  "fb = \<lparr>field_name = ''b'', field_type = StringType, nullable = True\<rparr>"

text \<open>A date column; the text of its type holds a bracket.\<close>

definition fd :: field where
  "fd = \<lparr>field_name = ''d'', field_type = Date32Type, nullable = True\<rparr>"

text \<open>A field whose name holds the text the descriptor puts between two keys.\<close>

definition fc :: field where
  "fc = \<lparr>field_name = ''a: int32[sort_key_0]a'', field_type = Int32Type, nullable = True\<rparr>"

definition k_two :: impl where
  "k_two = \<lparr>kind = Indexed, nulls_first = True, asc = True, key_index_list = [1]\<rparr>"

definition k_one :: impl where
  "k_one = \<lparr>kind = InPlace, nulls_first = True, asc = True, key_index_list = [0]\<rparr>"

text \<open>
  A two-column schema sorted by its second column, and one batch of two rows for it: row 0
  has a value in column 0 and a null key, row 1 a null in column 0 and the key 7.
  \<open>fed\<close> is the indexed sorter after that batch.
\<close>

definition fe :: field where
  "fe = \<lparr>field_name = ''e'', field_type = Int32Type, nullable = True\<rparr>"

definition col_a :: "int arrow_array" where "col_a = [(True, 1), (False, 0)]"
definition col_e :: "int arrow_array" where "col_e = [(False, 0), (True, 7)]"

definition fed :: "int sorter" where
  "fed = \<lparr>num_batches = 1, items_total = 2, nulls_total = 1, first = [col_a],
          cached = [[col_a], [col_e]]\<rparr>"

text \<open>
  The specification's example of a two-key sort, with the strings of its second column
  written as numbers (10 for "a", 20 for "b"): the rows (2, 20), (1, 10), (2, 10) in one
  batch, sorted ascending by both columns, nulls last. \<open>three_rows\<close> is the sorter
  after the batch, \<open>sorted_three\<close> the iterator made from it.
\<close>

definition two_keys :: impl where
  "two_keys = \<lparr>kind = Indexed, nulls_first = False, asc = True, key_index_list = [0, 1]\<rparr>"

definition three_rows :: "int sorter" where
  "three_rows = \<lparr>num_batches = 1, items_total = 3, nulls_total = 0,
       first = [[(True, 2), (True, 1), (True, 2)]],
       cached = [[[(True, 2), (True, 1), (True, 2)]], [[(True, 20), (True, 10), (True, 10)]]]\<rparr>"

definition sorted_three :: "int result_iterator" where
  "sorted_three = \<lparr>offset = 0, total_length = 3,
       indices_begin = [\<lparr>array_id = 0, id' = 1\<rparr>, \<lparr>array_id = 0, id' = 2\<rparr>,
                        \<lparr>array_id = 0, id' = 0\<rparr>],
       it_cached = [[[(True, 2), (True, 1), (True, 2)]],
                    [[(True, 20), (True, 10), (True, 10)]]]\<rparr>"

text \<open>An in-place sorter that was fed one batch of one null row, and its iterator.\<close>

definition one_null :: inplace_sorter where
  "one_null = \<lparr>ip_num_batches = 1, ip_items_total = 1, ip_nulls_total = 1,
               cached_0 = [[(False, 0)]]\<rparr>"

definition one_null_iterator :: inplace_iterator where
  "one_null_iterator = \<lparr>ip_offset = 0, ip_total_length = 1, ip_nulls = 1, ip_indices_begin = [0]\<rparr>"

text \<open>
  The specification's null-placement example, the column 5, null, 3, null, and the
  column 1, null, each fed to the in-place sorter as one batch (the raw value under a
  null is 0).
\<close>

definition null_example :: inplace_sorter where
  "null_example = \<lparr>ip_num_batches = 1, ip_items_total = 4, ip_nulls_total = 2,
       cached_0 = [[(True, 5), (False, 0), (True, 3), (False, 0)]]\<rparr>"

definition one_and_null :: inplace_sorter where
  "one_and_null = \<lparr>ip_num_batches = 1, ip_items_total = 2, ip_nulls_total = 1,
       cached_0 = [[(True, 1), (False, 0)]]\<rparr>"

text \<open>A process with nothing built yet, whose compiler rejects everything, and one whose
  compiler accepts everything.\<close>

definition env0 :: jit_env where
  "env0 = \<lparr>lock_held = False, libraries = Map.empty, loadable = (\<lambda>s. True),
           compiler_accepts = (\<lambda>c. False), compilations = 0, GetBatchSize = 10000,
           std_hash = (\<lambda>s. of_nat (length s))\<rparr>"

definition env1 :: jit_env where
  "env1 = env0\<lparr>compiler_accepts := (\<lambda>c. True)\<rparr>"

text \<open>The batch size literal of a generated source.\<close>

fun batch_literal :: "codes \<Rightarrow> string" where
  "batch_literal (IndexedCodes g) = batch_size_literal g"
| "batch_literal (InplaceCodes g) = ip_batch_size_literal g"

section \<open>Properties\<close>

subsection \<open>The factory\<close>

lemma Impl_ctor_kind: "Impl_ctor ks sch nf a = Inr k \<Longrightarrow> kind k = Indexed"
  by (auto simp: Impl_ctor_def split: sum.splits)

lemma SortInplaceKernel_ctor_kind: "SortInplaceKernel_ctor ks sch nf a = Inr k \<Longrightarrow> kind k = InPlace"
  by (auto simp: SortInplaceKernel_ctor_def split: sum.splits list.splits if_splits)

lemma make_impl_one:
  "make_impl [fa] [fa] True True =
     Inr \<lparr>kind = InPlace, nulls_first = True, asc = True, key_index_list = [0]\<rparr>"
  by (simp add: make_impl_def SortInplaceKernel_ctor_def Impl_ctor_def GetAllFieldIndices_def
      fa_def)

lemma make_impl_two:
  "make_impl [fb] [fa, fb] True True =
     Inr \<lparr>kind = Indexed, nulls_first = True, asc = True, key_index_list = [1]\<rparr>"
  by (simp add: make_impl_def SortInplaceKernel_ctor_def Impl_ctor_def GetAllFieldIndices_def
      fa_def fb_def upt_rec)

text \<open>
  C3. The factory runs the in-place constructor if and only if the key list has exactly
  one key and the output schema has exactly one column, and the indexed constructor in
  every other case; a kernel it returns is of the in-place kind exactly under that
  condition and of the indexed kind otherwise.
\<close>

theorem factory_selects_variant:
  "make_impl key_field_list result_schema nf a =
     (if length key_field_list = 1 \<and> length result_schema = 1
      then SortInplaceKernel_ctor key_field_list result_schema nf a
      else Impl_ctor key_field_list result_schema nf a)
   \<and> (\<forall>k. make_impl key_field_list result_schema nf a = Inr k \<longrightarrow>
          (kind k = InPlace \<longleftrightarrow> length key_field_list = 1 \<and> length result_schema = 1) \<and>
          (kind k = Indexed \<longleftrightarrow> \<not> (length key_field_list = 1 \<and> length result_schema = 1)))"
  by (auto simp: make_impl_def dest: Impl_ctor_kind SortInplaceKernel_ctor_kind)

theorem factory_selects_variant_witness:
  "make_impl [fa] [fa] True True =
     Inr \<lparr>kind = InPlace, nulls_first = True, asc = True, key_index_list = [0]\<rparr>
   \<and> make_impl [fb] [fa, fb] True True =
     Inr \<lparr>kind = Indexed, nulls_first = True, asc = True, key_index_list = [1]\<rparr>"
  using factory_selects_variant [of "[fa]" "[fa]" True True]
        factory_selects_variant [of "[fb]" "[fa, fb]" True True]
  by (simp add: make_impl_one make_impl_two)

subsection \<open>The comparator\<close>

lemma GetCompFunction'_sem:
  "i < length keys \<Longrightarrow>
   \<exists>c. GetCompFunction' a i keys = Some c \<and>
       (\<forall>x y. comp_sem view c x y = composite_comparator a view (drop i keys) x y)"
proof (induction a i keys rule: GetCompFunction'.induct)
  case (1 a i keys)
  show ?case
  proof (cases "i + 1 < length keys")
    case True
    with 1 obtain inner where
      inner: "GetCompFunction' a (i + 1) keys = Some inner"
        "\<forall>x y. comp_sem view inner x y = composite_comparator a view (drop (i + 1) keys) x y"
      by auto
    from True obtain k k' rest where d: "drop i keys = k # k' # rest"
      by (metis Cons_nth_drop_Suc Suc_eq_plus1 "1.prems")
    then have k: "keys ! i = k" and d': "drop (i + 1) keys = k' # rest"
      using "1.prems"
      by (metis Cons_nth_drop_Suc list.inject,
          metis Suc_eq_plus1 drop_Suc tl_drop list.sel(3))
    show ?thesis
      using inner True "1.prems" d d' k
      by (subst GetCompFunction'.simps) (simp add: strict_in_direction_def)
  next
    case False
    with "1.prems" have d: "drop i keys = [keys ! i]"
      by (metis Cons_nth_drop_Suc Suc_eq_plus1 drop_all not_less)
    show ?thesis
      using False "1.prems" d
      by (subst GetCompFunction'.simps) (simp add: strict_in_direction_def)
  qed
qed

lemma GetCompFunction_two_keys:
  "GetCompFunction True [0, 1] = Some (IfEqual 0 (ReturnLess 1) (ReturnLess 0))"
  by (simp add: GetCompFunction_def GetCompFunction'.simps)

lemma render_two_keys:
  "render_comp (IfEqual 0 (ReturnLess 1) (ReturnLess 0)) =
     ''if (cached_0_[x.array_id]->GetView(x.id) == cached_0_[y.array_id]->GetView(y.id)) {'' @
     ''return cached_1_[x.array_id]->GetView(x.id) < cached_1_[y.array_id]->GetView(y.id);'' @
     [CHR 0x0A] @ ''} else { '' @
     ''return cached_0_[x.array_id]->GetView(x.id) < cached_0_[y.array_id]->GetView(y.id);'' @
     [CHR 0x0A] @ ''}''"
  by (simp add: view_text_def to_string.simps)

text \<open>
  C4. For every non-empty key list the generator emits a comparator, and that comparator
  computes the composite comparison: the first key is compared first; where the two rows
  agree on the current key the comparison goes on with the remaining keys; at the last
  key the result is the strict inequality of the configured direction (less for
  ascending, greater for descending), with nothing after it.
\<close>

theorem comparator_is_composite:
  "keys \<noteq> [] \<Longrightarrow>
   \<exists>c. GetCompFunction a keys = Some c \<and>
       (\<forall>x y. comp_sem view c x y = composite_comparator a view keys x y)"
  using GetCompFunction'_sem [of 0 keys a view] by (simp add: GetCompFunction_def)

theorem comparator_is_composite_witness:
  "[0, 1] \<noteq> ([] :: nat list) \<and>
   (\<exists>c. GetCompFunction True [0, 1] = Some c \<and>
        comp_sem (\<lambda>k (r :: nat \<times> nat). if k = 0 then fst r else snd r) c (2, 5) (2, 7) \<and>
        \<not> comp_sem (\<lambda>k (r :: nat \<times> nat). if k = 0 then fst r else snd r) c (2, 7) (2, 5) \<and>
        comp_sem (\<lambda>k (r :: nat \<times> nat). if k = 0 then fst r else snd r) c (1, 9) (2, 0))"
  using comparator_is_composite
          [of "[0, 1]" True "\<lambda>k (r :: nat \<times> nat). if k = 0 then fst r else snd r"]
  by (auto simp: strict_in_direction_def)

subsection \<open>The sort call\<close>

text \<open>
  C5, as the claim states it, fails: for one ascending key of string type in a
  two-column schema the generator emits \<^verbatim>\<open>ska_sort\<close>, while the stated rule (numeric keys
  only) asks for the comparison sort.
\<close>

theorem radix_on_string_key:
  "make_impl [fb] [fa, fb] True True =
     Inr \<lparr>kind = Indexed, nulls_first = True, asc = True, key_index_list = [1]\<rparr> \<and>
   sort_func (ProduceCodes 10000
       \<lparr>kind = Indexed, nulls_first = True, asc = True, key_index_list = [1]\<rparr> [fa, fb]) =
     SkaSort AfterNulls (Some 1) \<and>
   \<not> spec_uses_radix True [1] [fa, fb]"
proof -
  have "\<not> spec_uses_radix True [1] [fa, fb]"
    by (simp add: spec_uses_radix_def fb_def)
  moreover have "sort_func (ProduceCodes 10000
       \<lparr>kind = Indexed, nulls_first = True, asc = True, key_index_list = [1]\<rparr> [fa, fb]) =
     SkaSort AfterNulls (Some 1)"
    by (simp add: ProduceCodes_def GetSortFunction_def)
  ultimately show ?thesis using make_impl_two by simp
qed

text \<open>
  C5, amended. The generator looks at the direction and the number of keys and never at
  a type: the indexed kernel emits the radix sort exactly for an ascending single key,
  the in-place kernel (which has one key always) exactly for ascending order, and the
  comparison sort with \<^verbatim>\<open>comp\<close> otherwise. In every case the range sorted is the one
  the pre-sort partition stores the non-null rows to: it starts where the first non-null
  row is stored and ends where the last of the \<open>items - nulls\<close> non-null rows is.
\<close>

theorem sort_call_selection:
  "(is_radix (GetSortFunction a nf keys) \<longleftrightarrow> a \<and> length keys = 1) \<and>
   (is_radix (GetSortFunction_inplace a nf) \<longleftrightarrow> a) \<and>
   range_of (GetSortFunction a nf keys) = (if nf then AfterNulls else BeforeNulls) \<and>
   range_of (GetSortFunction_inplace a nf) = (if nf then AfterNulls else BeforeNulls) \<and>
   (nulls \<le> items \<longrightarrow>
      range_bounds (if nf then AfterNulls else BeforeNulls) nulls items =
        (GetPreSortValid nf nulls 0, GetPreSortValid nf nulls (items - nulls)))"
  by (auto simp: GetSortFunction_def GetSortFunction_inplace_def GetPreSortValid_def)

theorem sort_call_selection_witness:
  "is_radix (GetSortFunction True True [1]) \<and> \<not> is_radix (GetSortFunction False True [1]) \<and>
   \<not> is_radix (GetSortFunction True True [0, 1]) \<and>
   (1::nat) \<le> 3 \<and> range_bounds AfterNulls 1 3 = (1, 3) \<and> range_bounds BeforeNulls 1 3 = (0, 2)"
  using sort_call_selection [of True True "[1]" 1 3] sort_call_selection [of False True "[1]" 1 3]
    sort_call_selection [of True True "[0, 1]" 1 3] sort_call_selection [of True False "[1]" 1 3]
  by (simp add: GetPreSortValid_def)

subsection \<open>The signature\<close>

lemma to_string_0: "to_string 0 = ''0''"
  by (simp add: to_string.simps)

lemma Field_ToString_fa: "Field_ToString fa = ''a: int32''"
  by (simp add: Field_ToString_def fa_def)

lemma Field_ToString_fc: "Field_ToString fc = ''a: int32[sort_key_0]a: int32''"
  by (simp add: Field_ToString_def fc_def)

lemma make_impl_fa_fc:
  "make_impl [fa, fc] [fa, fc] True True =
     Inr \<lparr>kind = Indexed, nulls_first = True, asc = True, key_index_list = [0, 1]\<rparr>"
  by (simp add: make_impl_def Impl_ctor_def GetAllFieldIndices_def fa_def fc_def upt_rec)

lemma make_impl_fc_fa:
  "make_impl [fc, fa] [fa, fc] True True =
     Inr \<lparr>kind = Indexed, nulls_first = True, asc = True, key_index_list = [1, 0]\<rparr>"
  by (simp add: make_impl_def Impl_ctor_def GetAllFieldIndices_def fa_def fc_def upt_rec)

text \<open>
  C6, as the claim states it, fails: the keys \<open>fa\<close> and \<open>fc\<close> of the schema
  \<open>[fa, fc]\<close> give two different key orders, with two different comparators, whose
  descriptors are the same string. The signatures are then the same whatever the hash
  function is (the last conjunct is an equation between functions of the hash).
\<close>

theorem reordered_keys_same_signature:
  "[fc, fa] = rev [fa, fc] \<and> [fc, fa] \<noteq> [fa, fc] \<and>
   make_impl [fa, fc] [fa, fc] True True =
     Inr \<lparr>kind = Indexed, nulls_first = True, asc = True, key_index_list = [0, 1]\<rparr> \<and>
   make_impl [fc, fa] [fa, fc] True True =
     Inr \<lparr>kind = Indexed, nulls_first = True, asc = True, key_index_list = [1, 0]\<rparr> \<and>
   func_args_ss True True [fc, fa] [fa, fc] = func_args_ss True True [fa, fc] [fa, fc] \<and>
   signature_of True True [fc, fa] [fa, fc] = signature_of True True [fa, fc] [fa, fc]"
proof -
  have d: "func_args_ss True True [fc, fa] [fa, fc] = func_args_ss True True [fa, fc] [fa, fc]"
    by (simp add: func_args_ss_def to_string_0 Field_ToString_fa Field_ToString_fc)
  have "signature_of True True [fc, fa] [fa, fc] = signature_of True True [fa, fc] [fa, fc]"
    by (rule ext) (simp add: signature_of_def d)
  moreover have "[fc, fa] \<noteq> [fa, fc]" by (simp add: fa_def fc_def)
  ultimately show ?thesis using d make_impl_fa_fc make_impl_fc_fa by simp
qed

lemma hex_digit_inj:
  "d < 16 \<Longrightarrow> d' < 16 \<Longrightarrow> ''0123456789abcdef'' ! d = ''0123456789abcdef'' ! d' \<Longrightarrow> d = d'"
  by (simp add: nth_eq_iff_index_eq)

lemma to_hex_not_Nil: "to_hex n \<noteq> []" "[] \<noteq> to_hex n"
  by (subst to_hex.simps, simp)+

lemma to_hex_inj: "to_hex n = to_hex m \<Longrightarrow> n = m"
proof (induction n arbitrary: m rule: to_hex.induct)
  case (1 n)
  show ?case
  proof (cases "n < 16")
    case True
    show ?thesis
    proof (cases "m < 16")
      case m: True
      from "1.prems" True m
      have "''0123456789abcdef'' ! n = ''0123456789abcdef'' ! m"
        by (simp add: to_hex.simps [of n] to_hex.simps [of m])
      with True m show ?thesis by (rule hex_digit_inj)
    next
      case False
      with "1.prems" True show ?thesis
        by (simp add: to_hex.simps [of n] to_hex.simps [of m] to_hex_not_Nil)
    qed
  next
    case False
    show ?thesis
    proof (cases "m < 16")
      case True
      with "1.prems" False show ?thesis
        by (simp add: to_hex.simps [of n] to_hex.simps [of m] to_hex_not_Nil)
    next
      case m: False
      from "1.prems" False m
      have eq: "to_hex (n div 16) = to_hex (m div 16)"
        and dg: "''0123456789abcdef'' ! (n mod 16) = ''0123456789abcdef'' ! (m mod 16)"
        by (simp_all add: to_hex.simps [of n] to_hex.simps [of m])
      from "1.IH" [OF False eq] have "n div 16 = m div 16" .
      moreover from dg have "n mod 16 = m mod 16"
        by (intro hex_digit_inj) simp_all
      ultimately show ?thesis by (metis div_mult_mod_eq)
    qed
  qed
qed

lemma signature_eq_iff:
  "signature_of nf a keys sch hash = signature_of nf' a' keys' sch' hash \<longleftrightarrow>
   hash (func_args_ss nf a keys sch) = hash (func_args_ss nf' a' keys' sch')"
proof -
  have "to_hex (unat x) = to_hex (unat y) \<longleftrightarrow> x = y" for x y :: "64 word"
    using to_hex_inj [of "unat x" "unat y"] by (auto simp: word_unat_eq_iff)
  then show ?thesis by (simp add: signature_of_def)
qed

lemma starts_with_iff: "starts_with t s \<longleftrightarrow> (\<exists>q. s = t @ q)"
  by (induction t s rule: starts_with.induct) auto

lemma occurs_in_iff: "occurs_in t s \<longleftrightarrow> (\<exists>p q. s = p @ t @ q)"
proof (induction s)
  case Nil
  then show ?case by (auto simp: starts_with_iff)
next
  case (Cons c cs)
  show ?case
  proof
    assume "occurs_in t (c # cs)"
    then consider "starts_with t (c # cs)" | "occurs_in t cs" by auto
    then show "\<exists>p q. c # cs = p @ t @ q"
    proof cases
      case 1
      then obtain q where "c # cs = t @ q" by (auto simp: starts_with_iff)
      then have "c # cs = [] @ t @ q" by simp
      then show ?thesis by blast
    next
      case 2
      with Cons obtain p q where "cs = p @ t @ q" by auto
      then have "c # cs = (c # p) @ t @ q" by simp
      then show ?thesis by blast
    qed
  next
    assume "\<exists>p q. c # cs = p @ t @ q"
    then obtain p q where pq: "c # cs = p @ t @ q" by blast
    show "occurs_in t (c # cs)"
    proof (cases p)
      case Nil
      with pq have "starts_with t (c # cs)" by (auto simp: starts_with_iff)
      then show ?thesis by simp
    next
      case (Cons c' p')
      with pq have "cs = p' @ t @ q" by simp
      with Cons.IH have "occurs_in t cs" by blast
      then show ?thesis by simp
    qed
  qed
qed

lemma sort_keys_Cons:
  "sort_keys 0 (f # fs) = ''[sort_key_0]'' @ Field_ToString f @ sort_keys 0 fs"
  by (simp add: to_string_0)

lemma sort_keys_shape:
  "sort_keys 0 ks = [] \<or> (\<exists>r. sort_keys 0 ks = ''[sort_key_0]'' @ r)"
  by (cases ks) (simp_all add: to_string_0)

lemma stem_in_tag:
  "occurs_in ''[sort_key_0]'' s \<Longrightarrow> occurs_in ''[sort_key_'' s"
proof -
  assume "occurs_in ''[sort_key_0]'' s"
  then obtain p q where "s = p @ ''[sort_key_0]'' @ q" by (auto simp: occurs_in_iff)
  moreover have "''[sort_key_0]'' = ''[sort_key_'' @ ''0]''" by simp
  ultimately have "s = p @ ''[sort_key_'' @ (''0]'' @ q)" by (simp only: append_assoc)
  then show ?thesis unfolding occurs_in_iff by blast
qed

lemma no_overhang:
  assumes "t = s @ u" "R = u @ R'" "\<not> occurs_in (c # P') t"
    "R = [] \<or> (\<exists>r. R = (c # P') @ r)" "R' = [] \<or> (\<exists>r. R' = (c # P') @ r)"
    "c \<notin> set P'"
  shows "u = []"
proof (rule ccontr)
  assume u: "u \<noteq> []"
  with assms(2) have "R \<noteq> []" by simp
  with assms(4) obtain r where "R = (c # P') @ r" by blast
  with assms(2) have r: "(c # P') @ r = u @ R'" by simp
  then consider w where "c # P' = u @ w" "w @ r = R'"
    | w where "(c # P') @ w = u" "r = w @ R'"
    unfolding append_eq_append_conv2 by blast
  then show False
  proof cases
    case 2
    then have "t = s @ (c # P') @ w" using assms(1) by simp
    with assms(3) show False unfolding occurs_in_iff by blast
  next
    case 1
    show False
    proof (cases "w = []")
      case True
      with 1 have "t = s @ (c # P') @ []" using assms(1) by simp
      with assms(3) show False unfolding occurs_in_iff by blast
    next
      case False
      with 1(2) have "R' \<noteq> []" by auto
      with assms(5) obtain r' where "R' = (c # P') @ r'" by blast
      with 1(2) have "w @ r = c # (P' @ r')" by simp
      with False have hdw: "hd w = c" by (cases w) simp_all
      from u obtain d u' where "u = d # u'" by (cases u) blast+
      with 1(1) have "P' = u' @ w" by simp
      then have "set w \<subseteq> set P'" by simp
      moreover from False have "hd w \<in> set w" by simp
      ultimately have "hd w \<in> set P'" by blast
      with hdw assms(6) show False by simp
    qed
  qed
qed

lemma key_text_split:
  assumes "s @ R = t @ R'"
    "\<not> occurs_in (c # P') s" "\<not> occurs_in (c # P') t"
    "R = [] \<or> (\<exists>r. R = (c # P') @ r)" "R' = [] \<or> (\<exists>r. R' = (c # P') @ r)"
    "c \<notin> set P'"
  shows "s = t \<and> R = R'"
proof -
  from assms(1) consider u where "s = t @ u" "u @ R = R'" | u where "s @ u = t" "R = u @ R'"
    unfolding append_eq_append_conv2 by blast
  then show ?thesis
  proof cases
    case 1
    from no_overhang [OF 1(1) 1(2) [symmetric] assms(2) assms(5) assms(4) assms(6)] 1
    show ?thesis by simp
  next
    case 2
    from no_overhang [OF 2(1) [symmetric] 2(2) assms(3) assms(4) assms(5) assms(6)] 2
    show ?thesis by simp
  qed
qed

lemma tag_bracket_once: "CHR ''['' \<notin> set ''sort_key_0]''"
  by simp

lemma sort_keys_inj:
  "\<forall>f \<in> set ks \<union> set ks'. \<not> occurs_in ''[sort_key_0]'' (Field_ToString f) \<Longrightarrow>
   sort_keys 0 ks = sort_keys 0 ks' \<Longrightarrow> map Field_ToString ks = map Field_ToString ks'"
proof (induction ks arbitrary: ks')
  case Nil
  then show ?case by (cases ks') (simp_all add: to_string_0)
next
  case (Cons f fs)
  show ?case
  proof (cases ks')
    case Nil
    with Cons.prems show ?thesis by (simp add: to_string_0)
  next
    case (Cons f' fs')
    with Cons.prems(2)
    have eq: "Field_ToString f @ sort_keys 0 fs = Field_ToString f' @ sort_keys 0 fs'"
      by simp
    from Cons.prems(1) Cons
    have no: "\<not> occurs_in ''[sort_key_0]'' (Field_ToString f)"
      "\<not> occurs_in ''[sort_key_0]'' (Field_ToString f')" by simp_all
    from key_text_split [OF eq no sort_keys_shape sort_keys_shape tag_bracket_once]
    have hd: "Field_ToString f = Field_ToString f'" and tl: "sort_keys 0 fs = sort_keys 0 fs'"
      by simp_all
    have "\<forall>f \<in> set fs \<union> set fs'. \<not> occurs_in ''[sort_key_0]'' (Field_ToString f)"
      using Cons.prems(1) Cons by simp
    from Cons.IH [OF this tl] hd Cons show ?thesis by simp
  qed
qed

lemma sort_keys_cong:
  "map Field_ToString ks = map Field_ToString ks' \<Longrightarrow> sort_keys i ks = sort_keys i ks'"
proof (induction ks arbitrary: ks')
  case Nil
  then show ?case by simp
next
  case (Cons f fs)
  then obtain f' fs' where "ks' = f' # fs'" by (cases ks') auto
  with Cons show ?case by simp
qed

lemma cancel_around:
  "p1 @ p2 @ p3 @ p4 @ x @ q1 @ q2 = p1 @ p2 @ p3 @ p4 @ y @ q1 @ q2 \<Longrightarrow> x = y"
  by simp

lemma func_args_ss_eq_iff:
  assumes "\<forall>f \<in> set ks \<union> set ks'. \<not> occurs_in ''[sort_key_'' (Field_ToString f)"
  shows "func_args_ss nf a ks sch = func_args_ss nf a ks' sch \<longleftrightarrow>
    map Field_ToString ks = map Field_ToString ks'"
proof -
  have no: "\<forall>f \<in> set ks \<union> set ks'. \<not> occurs_in ''[sort_key_0]'' (Field_ToString f)"
  proof
    fix f assume "f \<in> set ks \<union> set ks'"
    with assms have "\<not> occurs_in ''[sort_key_'' (Field_ToString f)" by (rule bspec)
    then show "\<not> occurs_in ''[sort_key_0]'' (Field_ToString f)"
      by (rule contrapos_nn) (rule stem_in_tag)
  qed
  show ?thesis
  proof
    assume eq: "func_args_ss nf a ks sch = func_args_ss nf a ks' sch"
    have "sort_keys 0 ks = sort_keys 0 ks'"
      by (rule cancel_around [OF eq [unfolded func_args_ss_def]])
    with no show "map Field_ToString ks = map Field_ToString ks'" by (rule sort_keys_inj)
  next
    assume "map Field_ToString ks = map Field_ToString ks'"
    then have "sort_keys 0 ks = sort_keys 0 ks'" by (rule sort_keys_cong)
    then show "func_args_ss nf a ks sch = func_args_ss nf a ks' sch"
      unfolding func_args_ss_def by (simp only:)
  qed
qed


text \<open>
  C6, amended. The signature is a function of the flags, the key list in its order and
  the schema (and of the hash), so equal requests have equal signatures. Two key orders
  have the same signature exactly when the hash gives their descriptors the same value;
  and when no key's field text contains the tag text \<^verbatim>\<open>[sort_key_\<close>, the descriptors of
  two key lists are equal exactly when the lists of the keys' field texts are equal, so
  that a reordering which changes that list changes the descriptor. Other brackets in a
  key's text, as in the type of a date column, do no harm.
\<close>

theorem signature_key_order:
  "(nf = nf' \<and> a = a' \<and> keys = keys' \<and> sch = sch' \<longrightarrow>
      signature_of nf a keys sch hash = signature_of nf' a' keys' sch' hash) \<and>
   (signature_of nf a keys sch hash = signature_of nf a reordered sch hash \<longleftrightarrow>
      hash (func_args_ss nf a keys sch) = hash (func_args_ss nf a reordered sch)) \<and>
   ((\<forall>f \<in> set keys \<union> set reordered. \<not> occurs_in ''[sort_key_'' (Field_ToString f)) \<longrightarrow>
      (func_args_ss nf a keys sch = func_args_ss nf a reordered sch \<longleftrightarrow>
       map Field_ToString keys = map Field_ToString reordered))"
proof (intro conjI impI)
  assume "nf = nf' \<and> a = a' \<and> keys = keys' \<and> sch = sch'"
  then show "signature_of nf a keys sch hash = signature_of nf' a' keys' sch' hash"
    by (elim conjE) (simp only:)
next
  show "signature_of nf a keys sch hash = signature_of nf a reordered sch hash \<longleftrightarrow>
      hash (func_args_ss nf a keys sch) = hash (func_args_ss nf a reordered sch)"
    by (rule signature_eq_iff)
next
  assume "\<forall>f \<in> set keys \<union> set reordered. \<not> occurs_in ''[sort_key_'' (Field_ToString f)"
  then show "func_args_ss nf a keys sch = func_args_ss nf a reordered sch \<longleftrightarrow>
       map Field_ToString keys = map Field_ToString reordered"
    by (rule func_args_ss_eq_iff)
qed

lemma Field_ToString_fd: "Field_ToString fd = ''d: date32[day]''"
  by (simp add: Field_ToString_def fd_def)

lemma no_tag_in_fa: "\<not> occurs_in ''[sort_key_'' (Field_ToString fa)"
  by (simp add: Field_ToString_fa)

lemma no_tag_in_fd: "\<not> occurs_in ''[sort_key_'' (Field_ToString fd)"
  by (simp add: Field_ToString_fd)

lemma tag_in_fc: "occurs_in ''[sort_key_'' (Field_ToString fc)"
  by (simp add: Field_ToString_fc)

lemma bracket_in_fd: "CHR ''['' \<in> set (Field_ToString fd)"
  by (simp add: Field_ToString_fd)

theorem signature_key_order_witness:
  "\<not> occurs_in ''[sort_key_'' (Field_ToString fa) \<and>
   \<not> occurs_in ''[sort_key_'' (Field_ToString fd) \<and>
   CHR ''['' \<in> set (Field_ToString fd) \<and>
   func_args_ss True True [fa, fd] [fa, fd] \<noteq> func_args_ss True True [fd, fa] [fa, fd] \<and>
   signature_of True True [fa, fd] [fa, fd] (\<lambda>s. of_nat (length s)) =
     signature_of True True [fd, fa] [fa, fd] (\<lambda>s. of_nat (length s))"
proof -
  note inst = signature_key_order [where nf = True and nf' = True and a = True and a' = True
      and keys = "[fa, fd]" and keys' = "[fa, fd]" and reordered = "[fd, fa]"
      and sch = "[fa, fd]" and sch' = "[fa, fd]" and hash = "\<lambda>s. of_nat (length s)"]
  have hyp: "\<forall>f \<in> set [fa, fd] \<union> set [fd, fa]. \<not> occurs_in ''[sort_key_'' (Field_ToString f)"
    using no_tag_in_fa no_tag_in_fd by simp
  have texts: "map Field_ToString [fa, fd] \<noteq> map Field_ToString [fd, fa]"
    by (simp add: Field_ToString_fa Field_ToString_fd)
  have len: "length (func_args_ss True True [fa, fd] [fa, fd]) =
      length (func_args_ss True True [fd, fa] [fa, fd])"
    by (simp add: func_args_ss_def)
  from inst hyp texts
  have differ: "func_args_ss True True [fa, fd] [fa, fd] \<noteq> func_args_ss True True [fd, fa] [fa, fd]"
    by blast
  from inst len
  have same: "signature_of True True [fa, fd] [fa, fd] (\<lambda>s. of_nat (length s)) =
     signature_of True True [fd, fa] [fa, fd] (\<lambda>s. of_nat (length s))"
    by simp
  from no_tag_in_fa no_tag_in_fd bracket_in_fd differ same show ?thesis by (intro conjI)
qed

subsection \<open>The build/load step\<close>

lemma LoadJITFunction_hit:
  "\<not> lock_held env \<Longrightarrow>
   libraries env (LoadJITFunction_signature env k keys sch) = Some lib \<Longrightarrow>
   loadable env (LoadJITFunction_signature env k keys sch) \<Longrightarrow>
   LoadJITFunction env k keys sch = Some (Inr lib, env)"
  by (simp add: LoadJITFunction_def FileSpinLock_def FileSpinUnLock_def LoadLibrary_def
      LoadJITFunction_signature_def)

lemma LoadJITFunction_success:
  "LoadJITFunction env k keys sch = Some (Inr lib, env') \<Longrightarrow>
   \<not> lock_held env' \<and>
   libraries env' (LoadJITFunction_signature env k keys sch) = Some lib \<and>
   loadable env' (LoadJITFunction_signature env k keys sch) \<and>
   std_hash env' = std_hash env"
  by (auto simp: LoadJITFunction_def FileSpinLock_def FileSpinUnLock_def LoadLibrary_def
      CompileCodes_def LoadJITFunction_signature_def Let_def
      split: if_splits option.splits sum.splits prod.splits)

lemma LoadJITFunction_compile_failure:
  "\<not> lock_held env \<Longrightarrow>
   libraries env (LoadJITFunction_signature env k keys sch) = None \<Longrightarrow>
   \<not> compiler_accepts env (produce (GetBatchSize env) k sch) \<Longrightarrow>
   LoadJITFunction env k keys sch =
     Some (Inl CompileError, env\<lparr>lock_held := True, compilations := compilations env + 1\<rparr>)"
  by (simp add: LoadJITFunction_def FileSpinLock_def FileSpinUnLock_def LoadLibrary_def
      CompileCodes_def LoadJITFunction_signature_def)

lemma LoadJITFunction_blocked:
  "lock_held env \<Longrightarrow> LoadJITFunction env k keys sch = None"
  by (simp add: LoadJITFunction_def FileSpinLock_def)

text \<open>
  C7. The claim fails on the path where the first load misses and the compiler fails:
  \<^verbatim>\<open>RETURN_NOT_OK(CompileCodes(...))\<close> returns the error from line 87 and never reaches
  \<^verbatim>\<open>FileSpinUnLock\<close> at line 90. The error is surfaced and the compiler ran once, but the
  lock is still held when the call returns, and the next build or load in the process
  spins on it without end.
\<close>

theorem LoadJITFunction_leaves_lock_held:
  "\<not> lock_held env \<Longrightarrow>
   libraries env (LoadJITFunction_signature env k keys sch) = None \<Longrightarrow>
   \<not> compiler_accepts env (produce (GetBatchSize env) k sch) \<Longrightarrow>
   LoadJITFunction env k keys sch =
     Some (Inl CompileError, env\<lparr>lock_held := True, compilations := compilations env + 1\<rparr>) \<and>
   LoadJITFunction (env\<lparr>lock_held := True, compilations := compilations env + 1\<rparr>)
     k' keys' sch' = None"
  by (simp add: LoadJITFunction_compile_failure LoadJITFunction_blocked)

theorem LoadJITFunction_leaves_lock_held_witness:
  "LoadJITFunction env0 k_two [fb] [fa, fb] =
     Some (Inl CompileError, env0\<lparr>lock_held := True, compilations := 1\<rparr>) \<and>
   lock_held (env0\<lparr>lock_held := True, compilations := 1\<rparr>) \<and>
   LoadJITFunction (env0\<lparr>lock_held := True, compilations := 1\<rparr>) k_two [fb] [fa, fb] = None"
  using LoadJITFunction_leaves_lock_held [of env0 k_two "[fb]" "[fa, fb]" k_two "[fb]" "[fa, fb]"]
  by (simp add: env0_def)

text \<open>
  The constructor of the kernel on that path: the failed build terminates the process,
  with the lock file left in place.
\<close>

lemma constructor_terminates_on_build_failure:
  "SortArraysToIndicesKernel_ctor env0 [fb] [fa, fb] True True =
     Some (Inl Terminated, env0\<lparr>lock_held := True, compilations := 1\<rparr>)"
proof -
  have "LoadJITFunction env0 k_two [fb] [fa, fb] =
      Some (Inl CompileError, env0\<lparr>lock_held := True, compilations := compilations env0 + 1\<rparr>)"
    by (rule LoadJITFunction_compile_failure) (simp_all add: env0_def)
  moreover have "compilations env0 = 0" by (simp add: env0_def)
  ultimately show ?thesis
    by (simp add: SortArraysToIndicesKernel_ctor_def make_impl_two k_two_def)
qed

lemma LoadJITFunction_lock_released_on_success:
  "LoadJITFunction env k keys sch = Some (Inr lib, env') \<Longrightarrow> \<not> lock_held env'"
  by (simp add: LoadJITFunction_success)

lemma LoadJITFunction_compiles_at_most_once:
  "LoadJITFunction env k keys sch = Some (r, env') \<Longrightarrow>
   compilations env' \<le> compilations env + 1"
  by (auto simp: LoadJITFunction_def FileSpinLock_def FileSpinUnLock_def LoadLibrary_def
      CompileCodes_def Let_def
      split: if_splits option.splits sum.splits prod.splits)

lemma batch_literal_produce: "batch_literal (produce b k sch) = to_string b"
  by (cases "kind k") (simp_all add: produce_def ProduceCodes_def ProduceCodes_inplace_def)

lemma LoadJITFunction_miss:
  "LoadJITFunction env k keys sch = Some (Inr lib, env') \<Longrightarrow>
   libraries env (LoadJITFunction_signature env k keys sch) = None \<Longrightarrow>
   lib = produce (GetBatchSize env) k sch \<and> compilations env' = compilations env + 1"
  by (auto simp: LoadJITFunction_def FileSpinLock_def FileSpinUnLock_def LoadLibrary_def
      CompileCodes_def LoadJITFunction_signature_def Let_def
      split: if_splits option.splits sum.splits prod.splits)

lemma dec_digit_inj:
  "d < 10 \<Longrightarrow> d' < 10 \<Longrightarrow> ''0123456789'' ! d = ''0123456789'' ! d' \<Longrightarrow> d = d'"
  by (simp add: nth_eq_iff_index_eq)

lemma to_string_not_Nil: "to_string n \<noteq> []" "[] \<noteq> to_string n"
  by (subst to_string.simps, simp)+

lemma to_string_inj: "to_string n = to_string m \<Longrightarrow> n = m"
proof (induction n arbitrary: m rule: to_string.induct)
  case (1 n)
  show ?case
  proof (cases "n < 10")
    case True
    show ?thesis
    proof (cases "m < 10")
      case m: True
      from "1.prems" True m
      have "''0123456789'' ! n = ''0123456789'' ! m"
        by (simp add: to_string.simps [of n] to_string.simps [of m])
      with True m show ?thesis by (rule dec_digit_inj)
    next
      case False
      with "1.prems" True show ?thesis
        by (simp add: to_string.simps [of n] to_string.simps [of m] to_string_not_Nil)
    qed
  next
    case False
    show ?thesis
    proof (cases "m < 10")
      case True
      with "1.prems" False show ?thesis
        by (simp add: to_string.simps [of n] to_string.simps [of m] to_string_not_Nil)
    next
      case m: False
      from "1.prems" False m
      have eq: "to_string (n div 10) = to_string (m div 10)"
        and dg: "''0123456789'' ! (n mod 10) = ''0123456789'' ! (m mod 10)"
        by (simp_all add: to_string.simps [of n] to_string.simps [of m])
      from "1.IH" [OF False eq] have "n div 10 = m div 10" .
      moreover from dg have "n mod 10 = m mod 10"
        by (intro dec_digit_inj) simp_all
      ultimately show ?thesis by (metis div_mult_mod_eq)
    qed
  qed
qed

lemma produce_eq_iff: "produce b k sch = produce b' k sch \<longleftrightarrow> b = b'"
proof
  assume "produce b k sch = produce b' k sch"
  then have "batch_literal (produce b k sch) = batch_literal (produce b' k sch)" by simp
  then show "b = b'" by (simp add: batch_literal_produce to_string_inj)
qed simp

lemma to_string_10000: "to_string 10000 = ''10000''"
  by (simp add: to_string.simps)

lemma to_string_4096: "to_string 4096 = ''4096''"
  by (simp add: to_string.simps)

text \<open>
  C10. The signature does not depend on the configured batch size, while the generated
  source does: the batch size is printed into it as a literal, and two batch sizes give
  the same source only when they are equal. So when a build under one
  batch size has stored its library, a later request under another batch size derives the
  same signature and loads that library, whose \<^verbatim>\<open>Next\<close> still carries the first batch
  size.
\<close>

theorem signature_ignores_batch_size:
  "LoadJITFunction_signature (env\<lparr>GetBatchSize := b\<rparr>) k keys sch =
     LoadJITFunction_signature env k keys sch \<and>
   batch_literal (produce (GetBatchSize env) k sch) = to_string (GetBatchSize env) \<and>
   (produce (GetBatchSize env) k sch = produce b k sch \<longleftrightarrow> GetBatchSize env = b) \<and>
   (libraries env (LoadJITFunction_signature env k keys sch) = None \<and>
    LoadJITFunction env k keys sch = Some (Inr lib, env') \<longrightarrow>
      batch_literal lib = to_string (GetBatchSize env) \<and>
      LoadJITFunction (env'\<lparr>GetBatchSize := b\<rparr>) k keys sch =
        Some (Inr lib, env'\<lparr>GetBatchSize := b\<rparr>))"
proof -
  have sig: "LoadJITFunction_signature (e\<lparr>GetBatchSize := b\<rparr>) k keys sch =
     LoadJITFunction_signature e k keys sch" for e
    by (simp add: LoadJITFunction_signature_def)
  have "LoadJITFunction (env'\<lparr>GetBatchSize := b\<rparr>) k keys sch =
        Some (Inr lib, env'\<lparr>GetBatchSize := b\<rparr>) \<and> batch_literal lib = to_string (GetBatchSize env)"
    if miss: "libraries env (LoadJITFunction_signature env k keys sch) = None"
      and ok: "LoadJITFunction env k keys sch = Some (Inr lib, env')"
  proof -
    from LoadJITFunction_success [OF ok]
    have s: "\<not> lock_held env'"
      "libraries env' (LoadJITFunction_signature env k keys sch) = Some lib"
      "loadable env' (LoadJITFunction_signature env k keys sch)"
      "std_hash env' = std_hash env" by simp_all
    have same: "LoadJITFunction_signature (env'\<lparr>GetBatchSize := b\<rparr>) k keys sch =
        LoadJITFunction_signature env k keys sch"
      using s(4) by (simp add: LoadJITFunction_signature_def)
    have "LoadJITFunction (env'\<lparr>GetBatchSize := b\<rparr>) k keys sch =
        Some (Inr lib, env'\<lparr>GetBatchSize := b\<rparr>)"
      by (rule LoadJITFunction_hit) (use s same in simp_all)
    moreover have "batch_literal lib = to_string (GetBatchSize env)"
      using LoadJITFunction_miss [OF ok miss] by (simp add: batch_literal_produce)
    ultimately show ?thesis by simp
  qed
  then show ?thesis by (simp add: sig batch_literal_produce produce_eq_iff)
qed

theorem signature_ignores_batch_size_witness:
  "libraries env1 (LoadJITFunction_signature env1 k_two [fb] [fa, fb]) = None \<and>
   LoadJITFunction env1 k_two [fb] [fa, fb] =
     Some (Inr (produce 10000 k_two [fa, fb]),
           env1\<lparr>libraries := [LoadJITFunction_signature env1 k_two [fb] [fa, fb] \<mapsto>
                                 produce 10000 k_two [fa, fb]],
                compilations := 1\<rparr>) \<and>
   batch_literal (produce 10000 k_two [fa, fb]) = ''10000'' \<and>
   batch_literal (produce 4096 k_two [fa, fb]) = ''4096'' \<and>
   LoadJITFunction
       (env1\<lparr>libraries := [LoadJITFunction_signature env1 k_two [fb] [fa, fb] \<mapsto>
                                 produce 10000 k_two [fa, fb]],
              compilations := 1, GetBatchSize := 4096\<rparr>) k_two [fb] [fa, fb] =
     Some (Inr (produce 10000 k_two [fa, fb]),
           env1\<lparr>libraries := [LoadJITFunction_signature env1 k_two [fb] [fa, fb] \<mapsto>
                                 produce 10000 k_two [fa, fb]],
                compilations := 1, GetBatchSize := 4096\<rparr>)"
proof -
  let ?sig = "LoadJITFunction_signature env1 k_two [fb] [fa, fb]"
  let ?lib = "produce 10000 k_two [fa, fb]"
  let ?env' = "env1\<lparr>libraries := [?sig \<mapsto> ?lib], compilations := 1\<rparr>"
  have miss: "libraries env1 ?sig = None" by (simp add: env1_def env0_def)
  have run: "LoadJITFunction env1 k_two [fb] [fa, fb] = Some (Inr ?lib, ?env')"
    by (simp add: LoadJITFunction_def FileSpinLock_def FileSpinUnLock_def LoadLibrary_def
        CompileCodes_def env1_def env0_def Let_def)
  from signature_ignores_batch_size [where env = env1 and b = 4096 and k = k_two
      and keys = "[fb]" and sch = "[fa, fb]" and lib = ?lib and env' = ?env'] miss run
  show ?thesis by (simp add: batch_literal_produce to_string_10000 to_string_4096)
qed

subsection \<open>Evaluate\<close>

text \<open>
  C8, as the claim states it, fails: a batch whose two arrays have two rows and one row
  is accepted, and the state has changed when the call returns.
\<close>

theorem Evaluate_accepts_unequal_lengths:
  "Evaluate 2 (TypedSorterImpl 2) [[(True, 1::int), (True, 2)], [(True, 5)]] =
     Inr \<lparr>num_batches = 1, items_total = 2, nulls_total = 0,
          first = [[(True, 1), (True, 2)]],
          cached = [[[(True, 1), (True, 2)]], [[(True, 5)]]]\<rparr>"
  by (simp add: Evaluate_def TypedSorterImpl_def GetCachedInsert_def null_count_def upt_rec)

text \<open>
  C8, amended. \<^verbatim>\<open>Evaluate\<close> compares no row counts. Every batch that has an array for
  each column (and at least one array) is accepted, whatever the lengths of its arrays:
  the call returns OK, appends each array to its column's cache, counts one more batch,
  and adds the length and the null count of the first array to the running totals.
\<close>

theorem Evaluate_checks_nothing:
  "1 \<le> length ins \<Longrightarrow> n \<le> length ins \<Longrightarrow>
   \<exists>s'. Evaluate n s ins = Inr s' \<and>
        num_batches s' = num_batches s + 1 \<and>
        items_total s' = items_total s + of_nat (length (ins ! 0)) \<and>
        nulls_total s' = nulls_total s + of_nat (null_count (ins ! 0)) \<and>
        first s' = first s @ [ins ! 0] \<and>
        length (cached s') = n \<and>
        (\<forall>i < n. cached s' ! i = cached s ! i @ [ins ! i])"
  by (auto simp: Evaluate_def GetCachedInsert_def)

theorem Evaluate_checks_nothing_witness:
  "\<exists>s'. Evaluate 2 (TypedSorterImpl 2) [[(True, 1::int), (True, 2)], [(True, 5)]] = Inr s' \<and>
        items_total s' = 2 \<and> cached s' ! 1 = [[(True, 5)]]"
  using Evaluate_checks_nothing
          [of "[[(True, 1::int), (True, 2)], [(True, 5)]]" 2 "TypedSorterImpl 2"]
  by (auto simp: TypedSorterImpl_def)

subsection \<open>The pre-sort partition\<close>

text \<open>
  What the partition loop does, for a consistent sorter: the buffer ends up holding the
  rows that are null in \<^verbatim>\<open>first_\<close> (column 0 of the batches) in one region, at
  the start for nulls-first and at the end for nulls-last, and the other rows in the other
  region, both in encounter order; no store falls outside the buffer and no slot is left
  unwritten.
\<close>

lemma partition_row_valid:
  assumes "placed nf T N p vs ns" "N \<le> T" "\<not> IsNull arr i"
    "length vs < T - N" "length ns \<le> N"
  shows "\<exists>p'. partition_row nf T N arr a i p = Inr p' \<and>
              placed nf T N p' (vs @ [\<lparr>array_id = a, id' = i\<rparr>]) ns"
proof (cases nf)
  case True
  with assms show ?thesis
    by (auto simp: partition_row_def store_def GetPreSortValid_def placed_def
        nth_list_update nth_append less_Suc_eq)
next
  case False
  with assms show ?thesis
    by (auto simp: partition_row_def store_def GetPreSortValid_def placed_def
        nth_list_update nth_append less_Suc_eq)
qed

lemma partition_row_null:
  assumes "placed nf T N p vs ns" "N \<le> T" "IsNull arr i"
    "length vs \<le> T - N" "length ns < N"
  shows "\<exists>p'. partition_row nf T N arr a i p = Inr p' \<and>
              placed nf T N p' vs (ns @ [\<lparr>array_id = a, id' = i\<rparr>])"
proof (cases nf)
  case True
  with assms show ?thesis
    by (auto simp: partition_row_def store_def GetPreSortNull_def placed_def
        nth_list_update nth_append less_Suc_eq)
next
  case False
  with assms show ?thesis
    by (auto simp: partition_row_def store_def GetPreSortNull_def placed_def
        nth_list_update nth_append less_Suc_eq)
qed


lemma for_each_rows:
  assumes "placed nf T N p vs ns" "N \<le> T"
    "length vs + length (filter (\<lambda>i. \<not> IsNull arr i) js) \<le> T - N"
    "length ns + length (filter (\<lambda>i. IsNull arr i) js) \<le> N"
  shows "\<exists>p'. for_each (partition_row nf T N arr a) js p = Inr p' \<and>
     placed nf T N p'
       (vs @ map (\<lambda>i. \<lparr>array_id = a, id' = i\<rparr>) (filter (\<lambda>i. \<not> IsNull arr i) js))
       (ns @ map (\<lambda>i. \<lparr>array_id = a, id' = i\<rparr>) (filter (\<lambda>i. IsNull arr i) js))"
  using assms
proof (induction js arbitrary: p vs ns)
  case Nil
  then show ?case by simp
next
  case (Cons i js)
  show ?case
  proof (cases "IsNull arr i")
    case True
    with Cons.prems have b: "length vs \<le> T - N" "length ns < N" by simp_all
    from partition_row_null [OF Cons.prems(1,2) True b, of a]
    obtain p1 where p1: "partition_row nf T N arr a i p = Inr p1"
      "placed nf T N p1 vs (ns @ [\<lparr>array_id = a, id' = i\<rparr>])" by blast
    from Cons.IH [OF p1(2) Cons.prems(2)] Cons.prems(3,4) True p1(1)
    show ?thesis by simp
  next
    case False
    with Cons.prems have b: "length vs < T - N" "length ns \<le> N" by simp_all
    from partition_row_valid [OF Cons.prems(1,2) False b, of a]
    obtain p1 where p1: "partition_row nf T N arr a i p = Inr p1"
      "placed nf T N p1 (vs @ [\<lparr>array_id = a, id' = i\<rparr>]) ns" by blast
    from Cons.IH [OF p1(2) Cons.prems(2)] Cons.prems(3,4) False p1(1)
    show ?thesis by simp
  qed
qed

lemma filter_batch_rows:
  "a < length fs \<Longrightarrow>
   filter (null_in fs) (batch_rows a (fs ! a)) =
     map (\<lambda>i. \<lparr>array_id = a, id' = i\<rparr>) (filter (\<lambda>i. IsNull (fs ! a) i) [0..<length (fs ! a)])"
  "a < length fs \<Longrightarrow>
   filter (\<lambda>x. \<not> null_in fs x) (batch_rows a (fs ! a)) =
     map (\<lambda>i. \<lparr>array_id = a, id' = i\<rparr>) (filter (\<lambda>i. \<not> IsNull (fs ! a) i) [0..<length (fs ! a)])"
  by (simp_all add: batch_rows_def filter_map o_def null_in_def)

lemma for_each_batches:
  assumes "placed nf T N p vs ns" "N \<le> T" "\<forall>a \<in> set as. a < length fs"
    "length vs + length (filter (\<lambda>x. \<not> null_in fs x) (rows_of fs as)) \<le> T - N"
    "length ns + length (filter (null_in fs) (rows_of fs as)) \<le> N"
  shows "\<exists>p'. for_each (partition_batch nf T N fs) as p = Inr p' \<and>
     placed nf T N p' (vs @ filter (\<lambda>x. \<not> null_in fs x) (rows_of fs as))
       (ns @ filter (null_in fs) (rows_of fs as))"
  using assms
proof (induction as arbitrary: p vs ns)
  case Nil
  then show ?case by (simp add: rows_of_def)
next
  case (Cons a as)
  from Cons.prems(3) have a: "a < length fs" by simp
  let ?v = "map (\<lambda>i. \<lparr>array_id = a, id' = i\<rparr>)
              (filter (\<lambda>i. \<not> IsNull (fs ! a) i) [0..<length (fs ! a)])"
  let ?n = "map (\<lambda>i. \<lparr>array_id = a, id' = i\<rparr>)
              (filter (\<lambda>i. IsNull (fs ! a) i) [0..<length (fs ! a)])"
  have split_v: "filter (\<lambda>x. \<not> null_in fs x) (rows_of fs (a # as)) =
      ?v @ filter (\<lambda>x. \<not> null_in fs x) (rows_of fs as)"
    and split_n: "filter (null_in fs) (rows_of fs (a # as)) =
      ?n @ filter (null_in fs) (rows_of fs as)"
    using filter_batch_rows [OF a] by (simp_all add: rows_of_def)
  from Cons.prems(4,5)
  have b: "length vs + length (filter (\<lambda>i. \<not> IsNull (fs ! a) i) [0..<length (fs ! a)]) \<le> T - N"
    "length ns + length (filter (\<lambda>i. IsNull (fs ! a) i) [0..<length (fs ! a)]) \<le> N"
    by (simp_all add: split_v split_n)
  from for_each_rows [OF Cons.prems(1,2) b, of a]
  obtain p1 where p1: "for_each (partition_row nf T N (fs ! a) a) [0..<length (fs ! a)] p = Inr p1"
    "placed nf T N p1 (vs @ ?v) (ns @ ?n)" by blast
  have rest: "\<forall>a \<in> set as. a < length fs" using Cons.prems(3) by simp
  have c: "length (vs @ ?v) + length (filter (\<lambda>x. \<not> null_in fs x) (rows_of fs as)) \<le> T - N"
    "length (ns @ ?n) + length (filter (null_in fs) (rows_of fs as)) \<le> N"
    using Cons.prems(4,5) by (simp_all add: split_v split_n)
  from Cons.IH [OF p1(2) Cons.prems(2) rest c]
  show ?case using a p1(1) by (simp add: partition_batch_def split_v split_n)
qed

lemma placed_full:
  assumes "placed nf T N p vs ns" "length vs + length ns = T" "length ns = N"
  shows "indices_buf p = map Some (if nf then ns @ vs else vs @ ns)"
proof (rule nth_equalityI)
  show "length (indices_buf p) = length (map Some (if nf then ns @ vs else vs @ ns))"
    using assms by (auto simp: placed_def)
next
  fix j assume "j < length (indices_buf p)"
  with assms have j: "j < length vs + length ns" by (simp add: placed_def)
  show "indices_buf p ! j = map Some (if nf then ns @ vs else vs @ ns) ! j"
  proof (cases nf)
    case True
    show ?thesis
    proof (cases "j < length ns")
      case a: True
      with assms True show ?thesis by (auto simp: placed_def nth_append)
    next
      case False
      then have "j = N + (j - length ns)" "j - length ns < length vs" using j assms(3) by simp_all
      with assms True False j show ?thesis
        by (auto simp: placed_def nth_append)
    qed
  next
    case False
    show ?thesis
    proof (cases "j < length vs")
      case a: True
      with assms False show ?thesis by (auto simp: placed_def nth_append)
    next
      case b: False
      then have "j = (T - N) + (j - length vs)" "j - length vs < length ns"
        using j assms(2,3) by simp_all
      with assms False b j show ?thesis
        by (auto simp: placed_def nth_append)
    qed
  qed
qed

theorem partition_all_by_first_column:
  assumes "consistent s"
  shows "partition_all nf s =
     Inr \<lparr>indices_buf = map Some
            (if nf
             then filter (null_in (first s)) (all_rows (first s)) @
                  filter (\<lambda>x. \<not> null_in (first s) x) (all_rows (first s))
             else filter (\<lambda>x. \<not> null_in (first s) x) (all_rows (first s)) @
                  filter (null_in (first s)) (all_rows (first s))),
          indices_i = length (filter (\<lambda>x. \<not> null_in (first s) x) (all_rows (first s))),
          indices_null = length (filter (null_in (first s)) (all_rows (first s)))\<rparr>"
proof -
  let ?T = "unat (items_total s)" and ?N = "unat (nulls_total s)"
  let ?rows = "all_rows (first s)"
  let ?vs = "filter (\<lambda>x. \<not> null_in (first s) x) ?rows"
  let ?ns = "filter (null_in (first s)) ?rows"
  let ?p0 = "\<lparr>indices_buf = replicate ?T None, indices_i = 0, indices_null = 0\<rparr>"
  from assms have nb: "unat (num_batches s) = length (first s)"
    and T: "?T = length ?rows" and N: "?N = length ?ns"
    by (simp_all add: consistent_def)
  have sum: "length ?vs + length ?ns = ?T"
    using sum_length_filter_compl [of "null_in (first s)" ?rows] T by simp
  have p0: "placed nf ?T ?N ?p0 [] []" by (simp add: placed_def)
  have le: "?N \<le> ?T" using sum N by simp
  have "\<exists>p'. for_each (partition_batch nf ?T ?N (first s)) [0..<length (first s)] ?p0 = Inr p' \<and>
      placed nf ?T ?N p' ([] @ filter (\<lambda>x. \<not> null_in (first s) x) (rows_of (first s) [0..<length (first s)]))
        ([] @ filter (null_in (first s)) (rows_of (first s) [0..<length (first s)]))"
    by (rule for_each_batches [OF p0 le]) (use sum N in \<open>simp_all add: all_rows_def\<close>)
  then obtain p' where run: "partition_all nf s = Inr p'" and pl: "placed nf ?T ?N p' ?vs ?ns"
    by (auto simp: partition_all_def nb all_rows_def)
  from placed_full [OF pl sum N [symmetric]]
  have "indices_buf p' = map Some (if nf then ?ns @ ?vs else ?vs @ ?ns)" .
  moreover from pl have "indices_i p' = length ?vs" "indices_null p' = length ?ns"
    by (simp_all add: placed_def)
  ultimately have "p' = \<lparr>indices_buf = map Some (if nf then ?ns @ ?vs else ?vs @ ?ns),
      indices_i = length ?vs, indices_null = length ?ns\<rparr>"
    by simp
  with run show ?thesis by simp
qed

text \<open>
  \<^verbatim>\<open>Evaluate\<close> keeps a sorter consistent as long as the counters do not wrap around, and
  keeps it aligned when the arrays of the batch are as long as the first.
\<close>

lemma consistent_init: "consistent (TypedSorterImpl n)"
  by (simp add: consistent_def TypedSorterImpl_def all_rows_def rows_of_def)

lemma rows_of_append:
  "\<forall>a \<in> set as. a < length fs \<Longrightarrow> rows_of (fs @ [arr]) as = rows_of fs as"
  by (simp add: rows_of_def nth_append cong: map_cong)

lemma all_rows_append: "all_rows (fs @ [arr]) = all_rows fs @ batch_rows (length fs) arr"
proof -
  have "rows_of (fs @ [arr]) [0..<length fs] = rows_of fs [0..<length fs]"
    by (rule rows_of_append) simp
  moreover have "rows_of (fs @ [arr]) ([0..<length fs] @ [length fs]) =
      rows_of (fs @ [arr]) [0..<length fs] @ batch_rows (length fs) arr"
    by (simp add: rows_of_def)
  ultimately show ?thesis by (simp add: all_rows_def)
qed

lemma length_batch_rows: "length (batch_rows a arr) = length arr"
  by (simp add: batch_rows_def)

lemma all_rows_array_id: "x \<in> set (all_rows fs) \<Longrightarrow> array_id x < length fs"
  by (auto simp: all_rows_def rows_of_def batch_rows_def)

lemma filter_null_in_append:
  "filter (null_in (fs @ [arr])) (all_rows fs) = filter (null_in fs) (all_rows fs)"
  by (rule filter_cong) (auto simp: null_in_def nth_append dest: all_rows_array_id)

lemma length_filter_index:
  "length (filter (\<lambda>i. P (xs ! i)) [0..<length xs]) = length (filter P xs)"
proof -
  have "filter P xs = filter P (map (nth xs) [0..<length xs])" by (simp add: map_nth)
  also have "\<dots> = map (nth xs) (filter (\<lambda>i. P (xs ! i)) [0..<length xs])"
    by (simp add: filter_map o_def)
  finally show ?thesis by simp
qed

lemma null_rows_last_batch:
  "length (filter (null_in (fs @ [arr])) (batch_rows (length fs) arr)) = null_count arr"
  using length_filter_index [of "\<lambda>slot. \<not> fst slot" arr]
  by (simp add: batch_rows_def filter_map o_def null_in_def IsNull_def null_count_def)

lemma unat_plus_of_nat:
  "unat (w :: 64 word) + n < 2 ^ 64 \<Longrightarrow> unat (w + of_nat n) = unat w + n"
  by (simp add: unat_word_ariths unat_of_nat)

lemma Evaluate_consistent:
  assumes "consistent s" "Evaluate n s ins = Inr s'"
    "length (first s) + 1 < 2 ^ 64"
    "length (all_rows (first s)) + length (ins ! 0) < 2 ^ 64"
  shows "consistent s'"
proof -
  from assms(2) have s': "s' = s\<lparr>num_batches := num_batches s + 1,
                  items_total := items_total s + of_nat (length (ins ! 0)),
                  nulls_total := nulls_total s + of_nat (null_count (ins ! 0)),
                  first := first s @ [ins ! 0],
                  cached := GetCachedInsert n (cached s) ins\<rparr>"
    by (auto simp: Evaluate_def split: if_splits)
  from assms(1) have c: "unat (num_batches s) = length (first s)"
    "unat (items_total s) = length (all_rows (first s))"
    "unat (nulls_total s) = length (filter (null_in (first s)) (all_rows (first s)))"
    by (simp_all add: consistent_def)
  have nc: "null_count (ins ! 0) \<le> length (ins ! 0)" by (simp add: null_count_def)
  have "length (filter (null_in (first s)) (all_rows (first s))) \<le> length (all_rows (first s))"
    by simp
  with nc assms(4) c
  have n3: "unat (nulls_total s) + null_count (ins ! 0) < 2 ^ 64" by linarith
  have "unat (num_batches s + 1) = length (first s) + 1"
    using unat_plus_of_nat [of "num_batches s" 1] assms(3) c(1) by simp
  moreover have "unat (items_total s + of_nat (length (ins ! 0))) =
      length (all_rows (first s)) + length (ins ! 0)"
    using unat_plus_of_nat [of "items_total s" "length (ins ! 0)"] assms(4) c(2) by simp
  moreover have "unat (nulls_total s + of_nat (null_count (ins ! 0))) =
      length (filter (null_in (first s)) (all_rows (first s))) + null_count (ins ! 0)"
    using unat_plus_of_nat [OF n3] c(3) by simp
  ultimately show ?thesis
    by (simp add: s' consistent_def all_rows_append filter_null_in_append null_rows_last_batch
        length_batch_rows)
qed

lemma aligned_init: "aligned (TypedSorterImpl n)"
  by (simp add: aligned_def TypedSorterImpl_def list_all_iff)

lemma Evaluate_aligned:
  assumes "aligned s" "length (cached s) = n" "Evaluate n s ins = Inr s'"
    "\<forall>i < n. length (ins ! i) = length (ins ! 0)"
  shows "aligned s' \<and> length (cached s') = n"
proof -
  from assms(3) have s': "first s' = first s @ [ins ! 0]"
    "cached s' = GetCachedInsert n (cached s) ins"
    by (auto simp: Evaluate_def split: if_splits)
  have "map length (cached s ! i @ [ins ! i]) = map length (first s @ [ins ! 0])"
    if "i < n" for i
  proof -
    from assms(1,2) that have "map length (cached s ! i) = map length (first s)"
      by (simp add: aligned_def list_all_length)
    moreover from assms(4) that have "length (ins ! i) = length (ins ! 0)" by blast
    ultimately show ?thesis by simp
  qed
  note step = this
  have "aligned s'"
    unfolding aligned_def list_all_iff
  proof
    fix col assume "col \<in> set (cached s')"
    then obtain i where i: "i < n" "col = cached s ! i @ [ins ! i]"
      by (auto simp: s' GetCachedInsert_def)
    from step [OF i(1)] show "map length col = map length (first s')"
      by (simp only: i(2) s'(1))
  qed
  then show ?thesis by (simp add: s' GetCachedInsert_def)
qed

lemma make_impl_fe:
  "make_impl [fe] [fa, fe] True True = Inr k_two"
  by (simp add: make_impl_def Impl_ctor_def GetAllFieldIndices_def fa_def fe_def upt_rec k_two_def)

lemma Evaluate_fed: "Evaluate 2 (TypedSorterImpl 2) [col_a, col_e] = Inr fed"
  by (simp add: Evaluate_def TypedSorterImpl_def GetCachedInsert_def null_count_def upt_rec
      fed_def col_a_def)

lemma replicate_2: "replicate 2 x = [x, x]"
  by (simp add: numeral_2_eq_2)

lemma partition_fed:
  "partition_all True fed =
     Inr \<lparr>indices_buf = [Some \<lparr>array_id = 0, id' = 1\<rparr>, Some \<lparr>array_id = 0, id' = 0\<rparr>],
          indices_i = 1, indices_null = 1\<rparr>"
  by (simp add: partition_all_def fed_def partition_batch_def partition_row_def store_def
      GetPreSortValid_def GetPreSortNull_def IsNull_def col_a_def upt_rec replicate_2)

lemma sort_func_k_two: "sort_func (ProduceCodes 10000 k_two [fa, fe]) = SkaSort AfterNulls (Some 1)"
  by (simp add: ProduceCodes_def k_two_def GetSortFunction_def)

lemma Finish_fed:
  "Finish (ProduceCodes 10000 k_two [fa, fe]) fed =
     Inr [\<lparr>array_id = 0, id' = 1\<rparr>, \<lparr>array_id = 0, id' = 0\<rparr>]"
proof -
  have p: "pre_sort_nulls_first (ProduceCodes 10000 k_two [fa, fe]) = True"
    by (simp add: ProduceCodes_def k_two_def)
  have "run_sort (ProduceCodes 10000 k_two [fa, fe]) fed
          [\<lparr>array_id = 0, id' = 1\<rparr>, \<lparr>array_id = 0, id' = 0\<rparr>] =
        Inr [\<lparr>array_id = 0, id' = 1\<rparr>, \<lparr>array_id = 0, id' = 0\<rparr>]"
    by (simp add: run_sort_def sort_func_k_two fed_def readable_def col_e_def sort_between_def
        sort_by_def)
  then show ?thesis by (simp add: Finish_def p partition_fed)
qed

text \<open>
  C1. The claim fails when the first key is not column 0 of the schema. \<^verbatim>\<open>Evaluate\<close>
  keeps \<^verbatim>\<open>in[0]\<close> in \<^verbatim>\<open>first_\<close> and counts its nulls, and the partition loop tests
  \<^verbatim>\<open>first_[array_id]->IsNull(i)\<close>, while the sort call and the comparator read the key
  columns \<^verbatim>\<open>cached_k_\<close> of \<^verbatim>\<open>key_index_list_\<close>. For the schema \<open>[fa, fe]\<close> sorted
  by \<open>fe\<close> the null region receives row 1, whose key is not null, and the range handed
  to the sort holds row 0, whose key is null.
\<close>

theorem partition_on_first_column_not_key:
  "make_impl [fe] [fa, fe] True True = Inr k_two \<and> key_index_list k_two = [1] \<and>
   Evaluate 2 (TypedSorterImpl 2) [col_a, col_e] = Inr fed \<and>
   partition_all True fed =
     Inr \<lparr>indices_buf = [Some \<lparr>array_id = 0, id' = 1\<rparr>, Some \<lparr>array_id = 0, id' = 0\<rparr>],
          indices_i = 1, indices_null = 1\<rparr> \<and>
   \<not> IsNull (cached fed ! 1 ! 0) 1 \<and> IsNull (cached fed ! 1 ! 0) 0 \<and>
   Finish (ProduceCodes 10000 k_two [fa, fe]) fed =
     Inr [\<lparr>array_id = 0, id' = 1\<rparr>, \<lparr>array_id = 0, id' = 0\<rparr>]"
proof -
  have "\<not> IsNull (cached fed ! 1 ! 0) 1 \<and> IsNull (cached fed ! 1 ! 0) 0"
    by (simp add: fed_def IsNull_def col_e_def)
  moreover have "key_index_list k_two = [1]" by (simp add: k_two_def)
  ultimately show ?thesis
    using make_impl_fe Evaluate_fed partition_fed Finish_fed by simp
qed

subsection \<open>Finish and the result iterator of the indexed sorter\<close>

text \<open>
  One call of the indexed \<^verbatim>\<open>Next\<close> on a well-formed iterator: it returns, the batch has
  the smaller of the batch size and the number of rows left, in every column, and the
  cursor has advanced by that number. An exhausted iterator stays exhausted.
\<close>

lemma batch_length_unat:
  assumes "offset it \<le> total_length it"
  shows "unat (batch_length bs it) = min (unat bs) (unat (total_length it) - unat (offset it))"
    and "unat (offset it + batch_length bs it) = unat (offset it) + unat (batch_length bs it)"
    and "offset it + batch_length bs it \<le> total_length it"
proof -
  from assms have sub: "unat (total_length it - offset it) = unat (total_length it) - unat (offset it)"
    by (simp add: unat_sub)
  from assms have le: "unat (offset it) \<le> unat (total_length it)"
    by (simp add: word_le_nat_alt)
  show len: "unat (batch_length bs it) = min (unat bs) (unat (total_length it) - unat (offset it))"
    using sub by (auto simp: batch_length_def word_less_nat_alt)
  have "unat (total_length it) < 2 ^ 64" using unsigned_less [of "total_length it"] by simp
  with len le have "unat (offset it) + unat (batch_length bs it) < 2 ^ 64" by linarith
  then show add: "unat (offset it + batch_length bs it) = unat (offset it) + unat (batch_length bs it)"
    by (simp add: unat_word_ariths)
  show "offset it + batch_length bs it \<le> total_length it"
    using add len le by (simp add: word_le_nat_alt)
qed

lemma GetTypedBuild_ok:
  assumes "list_all (\<lambda>i. readable cs i item) [0..<length cs]"
  shows "\<exists>b'. GetTypedBuild cs item builders = Inr b' \<and> length b' = length cs \<and>
              (\<forall>i < length cs. length (b' ! i) = Suc (length (builders ! i)))"
  using assms by (simp add: GetTypedBuild_def)

lemma Next_loop_ok:
  assumes "well_formed it" "unat (offset it) + unat len \<le> unat (total_length it)"
    "count \<le> len" "length builders = length (it_cached it)"
  shows "\<exists>b'. Next_loop it len count builders = Inr b' \<and> length b' = length (it_cached it) \<and>
     (\<forall>i < length (it_cached it).
        length (b' ! i) = length (builders ! i) + (unat len - unat count))"
  using assms
proof (induction it len count builders rule: Next_loop.induct)
  case (1 it len count builders)
  show ?case
  proof (cases "count < len")
    case False
    with "1.prems"(3) have "count = len" by simp
    then show ?thesis
      using "1.prems"(4) by (subst Next_loop.simps) simp
  next
    case True
    then have cl: "unat count < unat len" by (simp add: word_less_nat_alt)
    have "unat (total_length it) < 2 ^ 64" using unsigned_less [of "total_length it"] by simp
    with cl "1.prems"(2) have "unat (offset it) + unat count < 2 ^ 64" by linarith
    then have pos: "unat (offset it + count) = unat (offset it) + unat count"
      by (simp add: unat_word_ariths)
    from "1.prems"(1) have "unat (total_length it) \<le> length (indices_begin it)"
      by (simp add: well_formed_def)
    with pos cl "1.prems"(2)
    have inside: "unat (offset it + count) < length (indices_begin it)" by linarith
    let ?item = "indices_begin it ! unat (offset it + count)"
    from "1.prems"(1) inside
    have "list_all (\<lambda>i. readable (it_cached it) i ?item) [0..<length (it_cached it)]"
      by (simp add: well_formed_def list_all_length)
    from GetTypedBuild_ok [OF this, of builders]
    obtain b1 where b1: "GetTypedBuild (it_cached it) ?item builders = Inr b1"
      "length b1 = length (it_cached it)"
      "\<forall>i < length (it_cached it). length (b1 ! i) = Suc (length (builders ! i))" by blast
    from True have next_le: "count + 1 \<le> len" by (simp add: inc_le)
    from "1.IH" [OF True inside b1(1) "1.prems"(1,2) next_le b1(2)]
    obtain b' where b': "Next_loop it len (count + 1) b1 = Inr b'"
      "length b' = length (it_cached it)"
      "\<forall>i < length (it_cached it).
         length (b' ! i) = length (b1 ! i) + (unat len - unat (count + 1))" by blast
    have "Next_loop it len count builders = Inr b'"
      using True inside b1(1) b'(1) by (subst Next_loop.simps) simp
    moreover have "Suc (unat len - unat (count + 1)) = unat len - unat count"
      using cl by (simp add: unat_succ [OF True])
    then have "\<forall>i < length (it_cached it).
        length (b' ! i) = length (builders ! i) + (unat len - unat count)"
      using b'(3) b1(3) by auto
    ultimately show ?thesis using b'(2) by simp
  qed
qed

lemma Next_advances:
  assumes "well_formed it"
  shows "\<exists>b it'. Next batch_size it = Inr (b, it') \<and>
     num_rows b = batch_length batch_size it \<and>
     unat (num_rows b) = min (unat batch_size) (unat (total_length it) - unat (offset it)) \<and>
     length (columns b) = length (it_cached it) \<and>
     (\<forall>c \<in> set (columns b). length c = unat (num_rows b)) \<and>
     it' = it\<lparr>offset := offset it + batch_length batch_size it\<rparr> \<and>
     unat (offset it') = unat (offset it) + unat (num_rows b) \<and>
     well_formed it'"
proof -
  let ?len = "batch_length batch_size it"
  from assms have le: "offset it \<le> total_length it" by (simp add: well_formed_def)
  note bl = batch_length_unat [OF le, of batch_size]
  have fit: "unat (offset it) + unat ?len \<le> unat (total_length it)"
    using bl(2,3) by (simp add: word_le_nat_alt)
  from Next_loop_ok [OF assms fit, of 0 "replicate (length (it_cached it)) []"]
  obtain b' where b': "Next_loop it ?len 0 (replicate (length (it_cached it)) []) = Inr b'"
    "length b' = length (it_cached it)"
    "\<forall>i < length (it_cached it). length (b' ! i) = unat ?len" by auto
  have cols: "\<forall>c \<in> set b'. length c = unat ?len"
    using b'(2,3) by (auto simp: in_set_conv_nth)
  have wf: "well_formed (it\<lparr>offset := offset it + ?len\<rparr>)"
    using assms bl(3) by (simp add: well_formed_def)
  have "Next batch_size it = Inr (\<lparr>num_rows = ?len, columns = b'\<rparr>, it\<lparr>offset := offset it + ?len\<rparr>)"
    using b'(1) by (simp add: Next_def batch_length_def Let_def)
  then show ?thesis using bl(1,2) b'(2) cols wf by simp
qed

lemma HasNext_iff: "HasNext it \<longleftrightarrow> offset it < total_length it"
  by (auto simp: HasNext_def)

lemma exhausted_stays:
  assumes "well_formed it" "\<not> HasNext it"
  shows "\<exists>b it'. Next batch_size it = Inr (b, it') \<and> num_rows b = 0 \<and>
           offset it' = offset it \<and> \<not> HasNext it'"
proof -
  from assms have eq: "offset it = total_length it"
    by (auto simp: HasNext_iff well_formed_def)
  then have "batch_length batch_size it = 0" by (simp add: batch_length_def)
  with Next_advances [OF assms(1), of batch_size] assms(2) show ?thesis
    by (auto simp: HasNext_iff)
qed

lemma Next_calls_total:
  assumes "well_formed it"
  shows "\<exists>bs it'. Next_calls n batch_size it = Inr (bs, it') \<and> well_formed it' \<and>
     total_length it' = total_length it \<and>
     unat (offset it') =
       min (unat (offset it) + n * unat batch_size) (unat (total_length it)) \<and>
     sum_list (map (\<lambda>b. unat (num_rows b)) bs) = unat (offset it') - unat (offset it)"
  using assms
proof (induction n arbitrary: it)
  case 0
  then show ?case by (simp add: well_formed_def word_le_nat_alt)
next
  case (Suc n)
  from Next_advances [OF Suc.prems, of batch_size]
  obtain b it1 where s1: "Next batch_size it = Inr (b, it1)"
    "unat (num_rows b) = min (unat batch_size) (unat (total_length it) - unat (offset it))"
    "it1 = it\<lparr>offset := offset it + batch_length batch_size it\<rparr>"
    "unat (offset it1) = unat (offset it) + unat (num_rows b)"
    "well_formed it1" by blast
  from Suc.IH [OF s1(5)]
  obtain bs it2 where s2: "Next_calls n batch_size it1 = Inr (bs, it2)" "well_formed it2"
    "total_length it2 = total_length it1"
    "unat (offset it2) = min (unat (offset it1) + n * unat batch_size) (unat (total_length it1))"
    "sum_list (map (\<lambda>b. unat (num_rows b)) bs) = unat (offset it2) - unat (offset it1)"
    by blast
  have t: "total_length it1 = total_length it" using s1(3) by simp
  from Suc.prems have le: "unat (offset it) \<le> unat (total_length it)"
    by (simp add: well_formed_def word_le_nat_alt)
  have "Next_calls (Suc n) batch_size it = Inr (b # bs, it2)" using s1(1) s2(1) by simp
  moreover have "unat (offset it2) =
      min (unat (offset it) + Suc n * unat batch_size) (unat (total_length it))"
    using s2(4) s1(2,4) t le by (auto simp: min_def)
  moreover have "sum_list (map (\<lambda>b. unat (num_rows b)) (b # bs)) =
      unat (offset it2) - unat (offset it)"
    using s2(4,5) s1(2,4) t le by (auto simp: min_def)
  ultimately show ?case using s2(2,3) t by simp
qed

lemma all_rows_delivered:
  assumes "well_formed it" "offset it = 0"
    "unat (total_length it) \<le> n * unat batch_size"
  shows "\<exists>bs it'. Next_calls n batch_size it = Inr (bs, it') \<and>
     sum_list (map (\<lambda>b. unat (num_rows b)) bs) = unat (total_length it) \<and>
     \<not> HasNext it'"
proof -
  from Next_calls_total [OF assms(1), of n batch_size]
  obtain bs it' where r: "Next_calls n batch_size it = Inr (bs, it')"
    "total_length it' = total_length it"
    "unat (offset it') = min (unat (offset it) + n * unat batch_size) (unat (total_length it))"
    "sum_list (map (\<lambda>b. unat (num_rows b)) bs) = unat (offset it') - unat (offset it)"
    by blast
  from r(3) assms(2,3) have "unat (offset it') = unat (total_length it)" by simp
  with r assms(2) show ?thesis by (simp add: HasNext_iff word_less_nat_alt)
qed

text \<open>
  \<^verbatim>\<open>Finish\<close> on a consistent, aligned sorter whose keys are columns of the schema: the
  partition is followed by a sort of the non-null range only, so the null region is
  still the null rows in encounter order and the other region is a rearrangement of the
  other rows.
\<close>

lemma those_map_Some: "those (map Some xs) = Some xs"
  by (induction xs) simp_all

lemma length_insert_by: "length (insert_by lt x ys) = Suc (length ys)"
  by (induction ys) simp_all

lemma set_insert_by: "set (insert_by lt x ys) = insert x (set ys)"
  by (induction ys) auto

lemma length_sort_by: "length (sort_by lt xs) = length xs"
  by (induction xs) (simp_all add: sort_by_def length_insert_by)

lemma set_sort_by: "set (sort_by lt xs) = set xs"
  by (induction xs) (simp_all add: sort_by_def set_insert_by)

lemma three_parts:
  "lo \<le> hi \<Longrightarrow> take lo xs @ take (hi - lo) (drop lo xs) @ drop hi xs = xs"
proof -
  assume "lo \<le> hi"
  then have "drop hi xs = drop (hi - lo) (drop lo xs)" by simp
  then show ?thesis by (simp only: append_take_drop_id)
qed

lemma parts_of_three:
  assumes "length A = lo" "length B = hi - lo" "lo \<le> hi"
  shows "take lo (A @ B @ C) = A" "drop hi (A @ B @ C) = C"
    "take (hi - lo) (drop lo (A @ B @ C)) = B"
  using assms by simp_all

lemma sort_between_ok:
  assumes "lo \<le> hi" "hi \<le> length xs"
  shows "\<exists>ys. sort_between lt (int lo, int hi) xs = Inr ys \<and> length ys = length xs \<and>
     set ys = set xs \<and> take lo ys = take lo xs \<and> drop hi ys = drop hi xs \<and>
     set (take (hi - lo) (drop lo ys)) = set (take (hi - lo) (drop lo xs))"
proof -
  let ?mid = "take (hi - lo) (drop lo xs)"
  let ?ys = "take lo xs @ sort_by lt ?mid @ drop hi xs"
  have run: "sort_between lt (int lo, int hi) xs = Inr ?ys"
    using assms by (simp add: sort_between_def nat_diff_distrib')
  have len: "length ?ys = length xs"
    using assms by (simp add: length_sort_by)
  have "set ?ys = set (take lo xs @ ?mid @ drop hi xs)" by (simp add: set_sort_by)
  then have st: "set ?ys = set xs" using three_parts [OF assms(1), of xs] by simp
  have l: "length (take lo xs) = lo" using assms by simp
  have lm: "length (sort_by lt ?mid) = hi - lo" using assms by (simp add: length_sort_by)
  note parts = parts_of_three [OF l lm assms(1), of "drop hi xs"]
  have md: "set (take (hi - lo) (drop lo ?ys)) = set ?mid"
    by (simp only: parts set_sort_by)
  from run len st parts(1,2) md show ?thesis by blast
qed

lemma comp_keys_generated:
  "i < length keys \<Longrightarrow>
   \<exists>c. GetCompFunction' a i keys = Some c \<and> comp_keys c = drop i keys"
proof (induction a i keys rule: GetCompFunction'.induct)
  case (1 a i keys)
  show ?case
  proof (cases "i + 1 < length keys")
    case True
    with 1 obtain inner where
      inner: "GetCompFunction' a (i + 1) keys = Some inner" "comp_keys inner = drop (i + 1) keys"
      by auto
    have "drop i keys = keys ! i # drop (i + 1) keys"
      using "1.prems" by (simp add: Cons_nth_drop_Suc)
    then show ?thesis
      using inner True "1.prems" by (subst GetCompFunction'.simps) simp
  next
    case False
    with "1.prems" have d: "drop i keys = [keys ! i]"
      by (metis Cons_nth_drop_Suc Suc_eq_plus1 drop_all not_less)
    show ?thesis
      using False "1.prems" d by (subst GetCompFunction'.simps) simp
  qed
qed

lemma all_rows_inside:
  "x \<in> set (all_rows fs) \<Longrightarrow> array_id x < length fs \<and> id' x < length (fs ! array_id x)"
  by (auto simp: all_rows_def rows_of_def batch_rows_def)

lemma readable_rows:
  assumes "aligned s" "k < length (cached s)" "x \<in> set (all_rows (first s))"
  shows "readable (cached s) k x"
proof -
  from assms(1,2) have m: "map length (cached s ! k) = map length (first s)"
    by (simp add: aligned_def list_all_length)
  then have l: "length (cached s ! k) = length (first s)" by (metis length_map)
  from all_rows_inside [OF assms(3)]
  have a: "array_id x < length (first s)" and i: "id' x < length (first s ! array_id x)"
    by simp_all
  from m a l have "length (cached s ! k ! array_id x) = length (first s ! array_id x)"
    by (metis nth_map)
  with assms(2) a i l show ?thesis by (simp add: readable_def)
qed

lemma run_sort_ok:
  assumes "aligned s" "key_index_list k \<noteq> []"
    "\<forall>key \<in> set (key_index_list k). key < length (cached s)"
    "set rows \<subseteq> set (all_rows (first s))"
    "length rows = unat (items_total s)" "unat (nulls_total s) \<le> unat (items_total s)"
  defines "lo \<equiv> sort_from (nulls_first k) (unat (items_total s)) (unat (nulls_total s))"
    and "hi \<equiv> sort_to (nulls_first k) (unat (items_total s)) (unat (nulls_total s))"
  shows "\<exists>out. run_sort (ProduceCodes b k sch) s rows = Inr out \<and> length out = length rows \<and>
     set out = set rows \<and> take lo out = take lo rows \<and> drop hi out = drop hi rows \<and>
     set (take (hi - lo) (drop lo out)) = set (take (hi - lo) (drop lo rows))"
proof -
  let ?g = "ProduceCodes b k sch"
  have lohi: "lo \<le> hi" "hi \<le> length rows"
    using assms(5,6) by (auto simp: lo_def hi_def sort_from_def sort_to_def)
  have bounds: "range_bounds (range_of (sort_func ?g)) (unat (nulls_total s)) (unat (items_total s))
      = (int lo, int hi)"
    using assms(6)
    by (auto simp: ProduceCodes_def GetSortFunction_def lo_def hi_def sort_from_def sort_to_def)
  have rd: "readable (cached s) key x"
    if "key \<in> set (key_index_list k)" "x \<in> set rows" for key x
    using that assms(1,3,4) by (intro readable_rows) auto
  have in_rows: "set (take (nat (int hi - int lo)) (drop lo rows)) \<subseteq> set rows"
    by (meson set_take_subset set_drop_subset subset_trans)
  from comp_keys_generated [of 0 "key_index_list k" "asc k"] assms(2)
  obtain c where c: "GetCompFunction (asc k) (key_index_list k) = Some c"
    "comp_keys c = key_index_list k"
    by (auto simp: GetCompFunction_def)
  show ?thesis
  proof (cases "sort_func ?g")
    case (SkaSort r key)
    then have key: "key = Some (key_index_list k ! 0)"
      by (auto simp: ProduceCodes_def GetSortFunction_def split: if_splits)
    have "key_index_list k ! 0 \<in> set (key_index_list k)" using assms(2) by simp
    then have "list_all (readable (cached s) (key_index_list k ! 0))
        (take (nat (int hi - int lo)) (drop lo rows))"
      using rd in_rows by (auto simp: list_all_iff)
    then have "run_sort ?g s rows =
        sort_between (\<lambda>x y. item_view (cached s) (key_index_list k ! 0) x <
                           item_view (cached s) (key_index_list k ! 0) y) (int lo, int hi) rows"
      using SkaSort key bounds by (simp add: run_sort_def Let_def)
    with sort_between_ok [OF lohi] show ?thesis by simp
  next
    case (StdSort r)
    have "list_all (\<lambda>x. list_all (\<lambda>key. readable (cached s) key x) (comp_keys c))
        (take (nat (int hi - int lo)) (drop lo rows))"
      using rd in_rows c(2) by (auto simp: list_all_iff)
    moreover have "comp_func ?g = Some c" using c(1) by (simp add: ProduceCodes_def)
    ultimately have "run_sort ?g s rows =
        sort_between (comp_sem (item_view (cached s)) c) (int lo, int hi) rows"
      using StdSort bounds by (simp add: run_sort_def Let_def)
    with sort_between_ok [OF lohi] show ?thesis by simp
  qed
qed

theorem Finish_sorted_partition:
  assumes "consistent s" "aligned s" "key_index_list k \<noteq> []"
    "\<forall>key \<in> set (key_index_list k). key < length (cached s)"
  defines "rows \<equiv> all_rows (first s)"
  defines "nulls \<equiv> filter (null_in (first s)) rows"
    and "valids \<equiv> filter (\<lambda>x. \<not> null_in (first s) x) rows"
  shows "\<exists>out. Finish (ProduceCodes b k sch) s = Inr out \<and>
     length out = unat (items_total s) \<and> set out = set rows \<and>
     (if nulls_first k
      then take (length nulls) out = nulls \<and> set (drop (length nulls) out) = set valids
      else drop (length valids) out = nulls \<and> set (take (length valids) out) = set valids)"
proof -
  let ?g = "ProduceCodes b k sch"
  let ?T = "unat (items_total s)" and ?N = "unat (nulls_total s)"
  let ?placed = "if nulls_first k then nulls @ valids else valids @ nulls"
  from assms(1) have T: "?T = length rows" and N: "?N = length nulls"
    by (simp_all add: consistent_def rows_def nulls_def)
  have sum: "length valids + length nulls = ?T"
    using sum_length_filter_compl [of "null_in (first s)" rows] T
    by (simp add: nulls_def valids_def)
  have part: "partition_all (pre_sort_nulls_first ?g) s =
      Inr \<lparr>indices_buf = map Some ?placed, indices_i = length valids,
           indices_null = length nulls\<rparr>"
    using partition_all_by_first_column [OF assms(1), of "nulls_first k"]
    by (simp add: ProduceCodes_def rows_def nulls_def valids_def)
  have fin: "Finish ?g s = run_sort ?g s ?placed"
    by (simp add: Finish_def part those_map_Some del: those.simps)
  have sub: "set ?placed \<subseteq> set (all_rows (first s))"
    by (auto simp: nulls_def valids_def rows_def)
  have len: "length ?placed = ?T" using sum by auto
  have le: "?N \<le> ?T" using sum N by simp
  from run_sort_ok [OF assms(2,3,4) sub len le, of b sch]
  obtain out where out: "run_sort ?g s ?placed = Inr out" "length out = length ?placed"
    "set out = set ?placed"
    "take (sort_from (nulls_first k) ?T ?N) out = take (sort_from (nulls_first k) ?T ?N) ?placed"
    "drop (sort_to (nulls_first k) ?T ?N) out = drop (sort_to (nulls_first k) ?T ?N) ?placed"
    "set (take (sort_to (nulls_first k) ?T ?N - sort_from (nulls_first k) ?T ?N)
            (drop (sort_from (nulls_first k) ?T ?N) out)) =
     set (take (sort_to (nulls_first k) ?T ?N - sort_from (nulls_first k) ?T ?N)
            (drop (sort_from (nulls_first k) ?T ?N) ?placed))"
    by blast
  have all: "set ?placed = set rows" by (auto simp: nulls_def valids_def)
  have tv: "?T - ?N = length valids" using sum N by simp
  show ?thesis
  proof (cases "nulls_first k")
    case True
    with out(4) N have "take (length nulls) out = nulls" by (simp add: sort_from_def)
    moreover from out(6) True N sum out(2) len
    have "set (drop (length nulls) out) = set valids"
      by (simp add: sort_from_def sort_to_def)
    ultimately show ?thesis using True fin out(1,2,3) len all by simp
  next
    case False
    with out(5) tv have "drop (length valids) out = nulls" by (simp add: sort_to_def)
    moreover from out(6) False tv
    have "set (take (length valids) out) = set valids"
      by (simp add: sort_from_def sort_to_def)
    ultimately show ?thesis using False fin out(1,2,3) len all by simp
  qed
qed

theorem MakeResultIterator_well_formed:
  assumes "consistent s" "aligned s" "key_index_list k \<noteq> []"
    "\<forall>key \<in> set (key_index_list k). key < length (cached s)"
  shows "\<exists>it. MakeResultIterator (ProduceCodes b k sch) s = Inr it \<and> well_formed it \<and>
     offset it = 0 \<and> total_length it = items_total s \<and>
     unat (total_length it) = length (all_rows (first s)) \<and>
     set (indices_begin it) = set (all_rows (first s))"
proof -
  from Finish_sorted_partition [OF assms, of b sch]
  obtain out where out: "Finish (ProduceCodes b k sch) s = Inr out"
    "length out = unat (items_total s)" "set out = set (all_rows (first s))" by blast
  let ?it = "\<lparr>offset = 0, total_length = items_total s, indices_begin = out,
             it_cached = cached s\<rparr>"
  have "readable (cached s) i x" if "x \<in> set out" "i < length (cached s)" for x i
    using that out(3) assms(2) by (intro readable_rows) simp_all
  then have "well_formed ?it"
    using out(2) by (auto simp: well_formed_def list_all_iff)
  moreover have "MakeResultIterator (ProduceCodes b k sch) s = Inr ?it"
    using out(1) by (simp add: MakeResultIterator_def)
  moreover from assms(1) have "unat (items_total s) = length (all_rows (first s))"
    by (simp add: consistent_def)
  ultimately show ?thesis using out(3) by simp
qed

theorem indexed_iterator_delivers_all_rows:
  assumes "consistent s" "aligned s" "key_index_list k \<noteq> []"
    "\<forall>key \<in> set (key_index_list k). key < length (cached s)"
    "length (all_rows (first s)) \<le> n * unat batch_size"
  shows "\<exists>it bs it'. MakeResultIterator (ProduceCodes b k sch) s = Inr it \<and>
     Next_calls n batch_size it = Inr (bs, it') \<and>
     sum_list (map (\<lambda>b. unat (num_rows b)) bs) = length (all_rows (first s)) \<and>
     \<not> HasNext it'"
proof -
  from MakeResultIterator_well_formed [OF assms(1-4), of b sch]
  obtain it where it: "MakeResultIterator (ProduceCodes b k sch) s = Inr it" "well_formed it"
    "offset it = 0" "unat (total_length it) = length (all_rows (first s))" by blast
  from all_rows_delivered [OF it(2,3), of n batch_size] it(4) assms(5)
  obtain bs it' where "Next_calls n batch_size it = Inr (bs, it')"
    "sum_list (map (\<lambda>b. unat (num_rows b)) bs) = unat (total_length it)" "\<not> HasNext it'"
    by auto
  with it show ?thesis by auto
qed

text \<open>
  The two-key example run through the indexed sorter: \<^verbatim>\<open>Evaluate\<close>, \<^verbatim>\<open>Finish\<close>,
  \<^verbatim>\<open>MakeResultIterator\<close> and one \<^verbatim>\<open>Next\<close>, which returns the rows (1, 10), (2, 10),
  (2, 20).
\<close>

lemma Evaluate_three_rows:
  "Evaluate 2 (TypedSorterImpl 2)
     [[(True, 2), (True, 1), (True, 2)], [(True, 20), (True, 10), (True, 10)]] = Inr three_rows"
  by (simp add: Evaluate_def TypedSorterImpl_def GetCachedInsert_def null_count_def upt_rec
      three_rows_def)

lemma replicate_3: "replicate 3 x = [x, x, x]"
  by (simp add: numeral_3_eq_3)

lemma partition_three_rows:
  "partition_all False three_rows =
     Inr \<lparr>indices_buf = [Some \<lparr>array_id = 0, id' = 0\<rparr>, Some \<lparr>array_id = 0, id' = 1\<rparr>,
                         Some \<lparr>array_id = 0, id' = 2\<rparr>],
          indices_i = 3, indices_null = 0\<rparr>"
  by (simp add: partition_all_def three_rows_def partition_batch_def partition_row_def store_def
      GetPreSortValid_def GetPreSortNull_def IsNull_def upt_rec replicate_3)

lemma Finish_three_rows:
  "Finish (ProduceCodes 10000 two_keys [fa, fe]) three_rows =
     Inr [\<lparr>array_id = 0, id' = 1\<rparr>, \<lparr>array_id = 0, id' = 2\<rparr>, \<lparr>array_id = 0, id' = 0\<rparr>]"
proof -
  have g: "pre_sort_nulls_first (ProduceCodes 10000 two_keys [fa, fe]) = False"
    "sort_func (ProduceCodes 10000 two_keys [fa, fe]) = StdSort BeforeNulls"
    "comp_func (ProduceCodes 10000 two_keys [fa, fe]) =
       Some (IfEqual 0 (ReturnLess 1) (ReturnLess 0))"
    by (simp_all add: ProduceCodes_def two_keys_def GetSortFunction_def
        GetCompFunction_two_keys [simplified])
  have "run_sort (ProduceCodes 10000 two_keys [fa, fe]) three_rows
          [\<lparr>array_id = 0, id' = 0\<rparr>, \<lparr>array_id = 0, id' = 1\<rparr>, \<lparr>array_id = 0, id' = 2\<rparr>] =
        Inr [\<lparr>array_id = 0, id' = 1\<rparr>, \<lparr>array_id = 0, id' = 2\<rparr>, \<lparr>array_id = 0, id' = 0\<rparr>]"
    by (simp add: run_sort_def g three_rows_def readable_def sort_between_def sort_by_def
        item_view_def GetView_def)
  then show ?thesis by (simp add: Finish_def g partition_three_rows)
qed


lemma MakeResultIterator_three_rows:
  "MakeResultIterator (ProduceCodes 10000 two_keys [fa, fe]) three_rows = Inr sorted_three"
  by (simp add: MakeResultIterator_def Finish_three_rows sorted_three_def)
     (simp add: three_rows_def)

lemma Next_loop_three_rows:
  "Next_loop sorted_three 3 0 [[], []] =
     Inr [[Some 1, Some 2, Some 2], [Some 10, Some 10, Some 20]]"
  by (simp add: Next_loop.simps sorted_three_def GetTypedBuild_def readable_def IsNull_def
      GetView_def upt_rec)

lemma Next_three_rows:
  "Next 10000 sorted_three =
     Inr (\<lparr>num_rows = 3, columns = [[Some 1, Some 2, Some 2], [Some 10, Some 10, Some 20]]\<rparr>,
          sorted_three\<lparr>offset := 3\<rparr>)"
proof -
  have "it_cached sorted_three = [[[(True, 2), (True, 1), (True, 2)]],
                    [[(True, 20), (True, 10), (True, 10)]]]"
    "total_length sorted_three = 3" "offset sorted_three = 0"
    by (simp_all add: sorted_three_def)
  then show ?thesis
    by (simp add: Next_def Let_def Next_loop_three_rows replicate_2)
qed

subsection \<open>The in-place sorter: partition and result iterator\<close>

text \<open>
  Past the first \<^verbatim>\<open>nulls_total_\<close> rows the in-place \<^verbatim>\<open>Next\<close> runs its first loop: it
  returns a batch of the smaller of the batch size and the number of rows left, and
  advances the cursor by that number.
\<close>

lemma append_loop_ok:
  assumes "unat (ip_offset it) + unat len \<le> unat (ip_total_length it)"
    "unat (ip_total_length it) \<le> length (ip_indices_begin it)" "count \<le> len"
  shows "\<exists>b'. append_loop it len count builder = Inr b' \<and>
     length b' = length builder + (unat len - unat count)"
  using assms
proof (induction it len count builder rule: append_loop.induct)
  case (1 it len count builder)
  show ?case
  proof (cases "count < len")
    case False
    with "1.prems"(3) have "count = len" by simp
    then show ?thesis by (subst append_loop.simps) simp
  next
    case True
    then have cl: "unat count < unat len" by (simp add: word_less_nat_alt)
    have "unat (ip_total_length it) < 2 ^ 64"
      using unsigned_less [of "ip_total_length it"] by simp
    with cl "1.prems"(1) have "unat (ip_offset it) + unat count < 2 ^ 64" by linarith
    then have pos: "unat (ip_offset it + count) = unat (ip_offset it) + unat count"
      by (simp add: unat_word_ariths)
    with cl "1.prems"(1,2)
    have inside: "unat (ip_offset it + count) < length (ip_indices_begin it)" by linarith
    from True have next_le: "count + 1 \<le> len" by (simp add: inc_le)
    from "1.IH" [OF True inside "1.prems"(1,2) next_le]
    obtain b' where b': "append_loop it len (count + 1)
        (builder @ [Some (ip_indices_begin it ! unat (ip_offset it + count))]) = Inr b'"
      "length b' = length (builder @ [Some (ip_indices_begin it ! unat (ip_offset it + count))]) +
         (unat len - unat (count + 1))" by blast
    have "append_loop it len count builder = Inr b'"
      using True inside b'(1) by (subst append_loop.simps) simp
    moreover have "Suc (unat len - unat (count + 1)) = unat len - unat count"
      using cl by (simp add: unat_succ [OF True])
    then have "length b' = length builder + (unat len - unat count)"
      using b'(2) by simp
    ultimately show ?thesis by simp
  qed
qed

lemma Next_inplace_past_nulls:
  assumes "well_formed_inplace it" "ip_nulls it \<le> ip_offset it"
  shows "\<exists>cells it'. Next_inplace batch_size it =
       Some (Inr (\<lparr>num_rows = ip_offset it' - ip_offset it, columns = [cells]\<rparr>, it')) \<and>
     unat (ip_offset it') - unat (ip_offset it) =
       min (unat batch_size) (unat (ip_total_length it) - unat (ip_offset it)) \<and>
     unat (ip_offset it) \<le> unat (ip_offset it') \<and>
     length cells = unat (ip_offset it') - unat (ip_offset it) \<and>
     well_formed_inplace it' \<and> ip_nulls it' \<le> ip_offset it'"
proof -
  let ?len = "if ip_total_length it - ip_offset it > batch_size then batch_size
              else ip_total_length it - ip_offset it"
  from assms(1) have le: "ip_offset it \<le> ip_total_length it"
    and buf: "unat (ip_total_length it) \<le> length (ip_indices_begin it)"
    by (simp_all add: well_formed_inplace_def)
  from le have sub: "unat (ip_total_length it - ip_offset it) =
      unat (ip_total_length it) - unat (ip_offset it)" by (simp add: unat_sub)
  from le have le': "unat (ip_offset it) \<le> unat (ip_total_length it)"
    by (simp add: word_le_nat_alt)
  have len: "unat ?len = min (unat batch_size) (unat (ip_total_length it) - unat (ip_offset it))"
    using sub by (auto simp: word_less_nat_alt)
  have fit: "unat (ip_offset it) + unat ?len \<le> unat (ip_total_length it)"
    using len le' by linarith
  have "unat (ip_total_length it) < 2 ^ 64"
    using unsigned_less [of "ip_total_length it"] by simp
  with fit have add: "unat (ip_offset it + ?len) = unat (ip_offset it) + unat ?len"
    by (simp add: unat_word_ariths)
  from append_loop_ok [OF fit buf, of 0 "[]"]
  obtain cells where cells: "append_loop it ?len 0 [] = Inr cells" "length cells = unat ?len"
    by auto
  let ?it' = "it\<lparr>ip_offset := ip_offset it + ?len\<rparr>"
  have run: "Next_inplace batch_size it =
      Some (Inr (\<lparr>num_rows = ?len, columns = [cells]\<rparr>, ?it'))"
    using assms(2) cells(1) by (simp add: Next_inplace_def Let_def)
  have wf: "well_formed_inplace ?it'"
    using add fit buf by (simp add: well_formed_inplace_def word_le_nat_alt)
  have nulls: "ip_nulls ?it' \<le> ip_offset ?it'"
    using assms(2) add by (simp add: word_le_nat_alt)
  have diff: "ip_offset ?it' - ip_offset it = ?len" by simp
  show ?thesis
    using run wf nulls len cells(2) add
    by (intro exI [of _ cells] exI [of _ ?it']) (simp only: diff, simp)
qed

lemma null_loop_returns:
  "null_loop it len count builder = Some r \<Longrightarrow>
   \<not> (count < len \<and> ip_offset it + count < ip_nulls it)"
proof (rule null_loop.raw_induct
    [where P = "\<lambda>it len count builder r. \<not> (count < len \<and> ip_offset it + count < ip_nulls it)"])
  fix f it len count builder r
  assume ih: "\<And>it len count builder r. f it len count builder = Some r \<Longrightarrow>
      \<not> (count < len \<and> ip_offset it + count < ip_nulls it)"
    and body: "(if count < len
      then if ip_offset it + count < ip_nulls it
           then f it len count (builder @ [None])
           else if unat (ip_offset it + count) < length (ip_indices_begin it)
                then f it len (count + 1)
                      (builder @ [Some (ip_indices_begin it ! unat (ip_offset it + count))])
                else Some (Inl OutOfRange)
      else Some (Inr builder)) = Some r"
  show "\<not> (count < len \<and> ip_offset it + count < ip_nulls it)"
  proof
    assume stuck: "count < len \<and> ip_offset it + count < ip_nulls it"
    with body have "f it len count (builder @ [None]) = Some r" by simp
    from ih [OF this] stuck show False by simp
  qed
qed

lemma null_loop_stuck:
  assumes "count < len" and "ip_offset it + count < ip_nulls it"
  shows "null_loop it len count builder = None"
proof (rule ccontr)
  assume "null_loop it len count builder \<noteq> None"
  then obtain r where "null_loop it len count builder = Some r" by auto
  from null_loop_returns [OF this] assms show False by simp
qed

lemma Next_inplace_diverges:
  assumes "ip_offset it < ip_nulls it" and "ip_offset it < ip_total_length it"
    and "0 < batch_size"
  shows "Next_inplace batch_size it = None"
proof -
  let ?len = "if ip_total_length it - ip_offset it > batch_size then batch_size
              else ip_total_length it - ip_offset it"
  have "ip_total_length it - ip_offset it \<noteq> 0" using assms(2) by simp
  then have "0 < ?len" using assms(3) by (simp add: word_greater_zero_iff)
  then have "null_loop it ?len 0 [] = None"
    using assms(1) by (intro null_loop_stuck) simp_all
  moreover have "\<not> ip_nulls it \<le> ip_offset it" using assms(1) by simp
  ultimately show ?thesis by (simp add: Next_inplace_def Let_def)
qed

lemma MakeResultIterator_inplace_fields:
  "MakeResultIterator_inplace g s = Inr it \<Longrightarrow>
   ip_offset it = 0 \<and> ip_total_length it = ip_items_total s \<and> ip_nulls it = ip_nulls_total s"
  by (auto simp: MakeResultIterator_inplace_def split: sum.splits)

lemma first_Next_inplace_with_nulls:
  "MakeResultIterator_inplace g s = Inr it \<Longrightarrow> 0 < ip_nulls_total s \<Longrightarrow>
   0 < ip_items_total s \<Longrightarrow> 0 < batch_size \<Longrightarrow> Next_inplace batch_size it = None"
  by (rule Next_inplace_diverges) (simp_all add: MakeResultIterator_inplace_fields)

lemma Evaluate_one_null: "Evaluate_inplace TypedSorterImpl_inplace [[(False, 0)]] = Inr one_null"
  by (simp add: Evaluate_inplace_def TypedSorterImpl_inplace_def one_null_def null_count_def)

lemma iterator_one_null:
  "MakeResultIterator_inplace (ProduceCodes_inplace 10000 k_one [fa]) one_null =
     Inr one_null_iterator"
  by (simp add: MakeResultIterator_inplace_def arrow_Concatenate_def one_null_def
      GetPartitionFunction_def stable_partition_def IsNull_def run_sort_inplace_def
      ProduceCodes_inplace_def k_one_def GetSortFunction_inplace_def sort_between_def
      sort_by_def one_null_iterator_def)

text \<open>
  C2. The claim fails for the in-place iterator. In the loop of lines 721-727 the branch
  that appends a null does not advance \<^verbatim>\<open>count\<close>, so a \<^verbatim>\<open>Next\<close> that starts inside the
  first \<^verbatim>\<open>nulls_total_\<close> rows never leaves the loop. The smallest case: one batch of
  one null row is fed, the iterator reports a next batch, and \<^verbatim>\<open>Next\<close> does not return.
\<close>

theorem Next_inplace_never_returns:
  "Evaluate_inplace TypedSorterImpl_inplace [[(False, 0)]] = Inr one_null \<and>
   MakeResultIterator_inplace (ProduceCodes_inplace 10000 k_one [fa]) one_null =
     Inr one_null_iterator \<and>
   HasNext_inplace one_null_iterator \<and>
   Next_inplace 10000 one_null_iterator = None"
proof -
  have "Next_inplace 10000 one_null_iterator = None"
    by (rule Next_inplace_diverges) (simp_all add: one_null_iterator_def)
  then show ?thesis
    by (simp add: Evaluate_one_null iterator_one_null HasNext_inplace_def one_null_iterator_def)
qed

text \<open>
  The partition of the in-place sorter applies \<^verbatim>\<open>IsNull\<close> to the values, not to the
  rows' positions. On the column 5, null, 3, null the value 5 is no position of the
  array; on the column 1, null the value 1 is moved to the null region because position
  1 is null.
\<close>

lemma Evaluate_null_example:
  "Evaluate_inplace TypedSorterImpl_inplace [[(True, 5), (False, 0), (True, 3), (False, 0)]] =
     Inr null_example"
  by (simp add: Evaluate_inplace_def TypedSorterImpl_inplace_def null_example_def null_count_def)

lemma null_example_out_of_range:
  "MakeResultIterator_inplace (ProduceCodes_inplace 10000 k_one [fa]) null_example =
     Inl OutOfRange"
  by (simp add: MakeResultIterator_inplace_def arrow_Concatenate_def null_example_def
      GetPartitionFunction_def ProduceCodes_inplace_def k_one_def)

lemma Evaluate_one_and_null:
  "Evaluate_inplace TypedSorterImpl_inplace [[(True, 1), (False, 0)]] = Inr one_and_null"
  by (simp add: Evaluate_inplace_def TypedSorterImpl_inplace_def one_and_null_def null_count_def)

lemma one_and_null_partition:
  "MakeResultIterator_inplace (ProduceCodes_inplace 10000 k_one [fa]) one_and_null =
     Inr \<lparr>ip_offset = 0, ip_total_length = 2, ip_nulls = 1, ip_indices_begin = [1, 0]\<rparr>"
  by (simp add: MakeResultIterator_inplace_def arrow_Concatenate_def one_and_null_def
      GetPartitionFunction_def stable_partition_def IsNull_def run_sort_inplace_def
      ProduceCodes_inplace_def k_one_def GetSortFunction_inplace_def sort_between_def
      sort_by_def)

subsection \<open>A terminal operation on a sorter that was fed nothing\<close>

lemma partition_all_init:
  "partition_all nf (TypedSorterImpl n :: 'v sorter) =
     Inr \<lparr>indices_buf = [], indices_i = 0, indices_null = 0\<rparr>"
  by (simp add: partition_all_def TypedSorterImpl_def)

lemma Finish_init:
  assumes "key_index_list k \<noteq> []"
  shows "Finish (ProduceCodes b k sch) (TypedSorterImpl n :: 'v::linorder sorter) = Inr []"
proof -
  obtain c where c: "GetCompFunction (asc k) (key_index_list k) = Some c"
    using GetCompFunction'_sem [of 0 "key_index_list k" "asc k" "\<lambda>k (r :: nat). r"] assms
    by (auto simp: GetCompFunction_def)
  have r: "run_sort (ProduceCodes b k sch) (TypedSorterImpl n :: 'v sorter) [] = Inr []"
    by (simp add: run_sort_def ProduceCodes_def c GetSortFunction_def sort_between_def
        sort_by_def TypedSorterImpl_def)
  show ?thesis
    by (simp add: Finish_def partition_all_init r)
qed

text \<open>
  C9. The claim holds for the indexed sorter and fails for the in-place one. With no
  batch accumulated the indexed \<^verbatim>\<open>Finish\<close> returns an array of no rows and the iterator
  made from it has no next batch. The in-place \<^verbatim>\<open>MakeResultIterator\<close> passes its empty
  \<^verbatim>\<open>cached_0_\<close> to \<^verbatim>\<open>arrow::Concatenate\<close>, which rejects an empty vector, and
  \<^verbatim>\<open>RETURN_NOT_OK\<close> hands that error to the caller: no iterator is made.
\<close>

theorem empty_result_indexed_only:
  "key_index_list k \<noteq> [] \<Longrightarrow>
   Finish (ProduceCodes b k sch) (TypedSorterImpl n :: 'v::linorder sorter) = Inr [] \<and>
   (\<exists>it. MakeResultIterator (ProduceCodes b k sch) (TypedSorterImpl n :: 'v sorter) = Inr it \<and>
         \<not> HasNext it) \<and>
   MakeResultIterator_inplace (ProduceCodes_inplace b k' sch') TypedSorterImpl_inplace =
     Inl (Invalid ''Must pass at least one array'')"
  by (simp add: MakeResultIterator_def Finish_init HasNext_def
      MakeResultIterator_inplace_def arrow_Concatenate_def TypedSorterImpl_inplace_def)
     (simp add: TypedSorterImpl_def)

theorem empty_result_indexed_only_witness:
  "key_index_list k_two \<noteq> [] \<and>
   Finish (ProduceCodes 10000 k_two [fa, fb]) (TypedSorterImpl 2 :: int sorter) = Inr [] \<and>
   MakeResultIterator_inplace (ProduceCodes_inplace 10000 k_one [fa]) TypedSorterImpl_inplace =
     Inl (Invalid ''Must pass at least one array'')"
  using empty_result_indexed_only [where k = k_two and b = 10000 and sch = "[fa, fb]" and n = 2
      and k' = k_one and sch' = "[fa]" and ?'v = int]
  by (simp add: k_two_def)

end
